theory Spec2Isabelle
  imports Main "HOL-Library.Word"
begin

section \<open>Errors\<close>

text \<open>
  Go errors are values. The constructors separate the errors the two source files build
  themselves (\<open>errors.New\<close>, \<open>fmt.Errorf\<close>) from the ones handed over by a library or by
  the cluster client. \<open>Error\<close> is the method \<open>err.Error()\<close>; of the message of a
  \<open>regexp\<close> error it keeps the prefix and the expression and leaves out the kind.
\<close>

datatype error =
    ErrorString string         \<comment> \<open>\<open>errors.New(msg)\<close> and \<open>fmt.Errorf(...)\<close>\<close>
  | RegexpSyntax string        \<comment> \<open>\<open>regexp.Compile\<close> rejected the expression\<close>
  | RegexpNotModelled string   \<comment> \<open>the expression leaves the modelled fragment\<close>
  | Foreign string             \<comment> \<open>an error value returned by a collaborator\<close>

fun Error :: "error \<Rightarrow> string" where
  "Error (ErrorString s) = s"
| "Error (RegexpSyntax s) = ''error parsing regexp: '' @ s"
| "Error (RegexpNotModelled s) = ''error parsing regexp: '' @ s"
| "Error (Foreign s) = s"

section \<open>The regular expressions of package regexp\<close>

text \<open>
  \<open>regexp.Compile\<close> and \<open>MatchString\<close> belong to the Go library, not to the repository.
  The functions of the repository take the compiler as a parameter. For the concrete
  scenarios a fragment of the library is modelled here: literals, \<open>.\<close>, the repetitions
  \<open>*\<close>, \<open>+\<close>, \<open>?\<close> (greedy or not, which a yes/no match cannot tell apart),
  alternation, groups \<open>( )\<close> and \<open>(?: )\<close>, the flag groups that switch the folding of
  case on or off, \<open>(?i)\<close>, \<open>(?i: )\<close>, \<open>(?-i)\<close> and \<open>(?-i: )\<close>, and backslash before an
  ASCII character that is neither letter nor digit. Anchors, character classes,
  counted repetition, the other flags and escapes and non-ASCII bytes are outside the
  fragment: the parser answers them with \<open>NotModelled\<close>, which says nothing about what
  the library does with them. Subjects are read one character at a time, which is
  what the library does on ASCII text. The limits of the library on the depth and the
  size of an expression are left out.
\<close>

datatype regex =
    EmptyMatch
  | NoMatch
  | Literal char bool          \<comment> \<open>the flag is the fold-case flag in force\<close>
  | AnyCharNotNL
  | Concat regex regex
  | Alternate regex regex
  | Star regex
  | Plus regex
  | Quest regex

definition toLower :: "char \<Rightarrow> char" where
  "toLower c =
     (let n = (of_char c :: nat) in if 65 \<le> n \<and> n \<le> 90 then char_of (n + 32) else c)"

definition isalnum :: "char \<Rightarrow> bool" where
  "isalnum c =
     (let n = (of_char c :: nat)
      in (48 \<le> n \<and> n \<le> 57) \<or> (65 \<le> n \<and> n \<le> 90) \<or> (97 \<le> n \<and> n \<le> 122))"

fun nullable :: "regex \<Rightarrow> bool" where
  "nullable EmptyMatch = True"
| "nullable NoMatch = False"
| "nullable (Literal c f) = False"
| "nullable AnyCharNotNL = False"
| "nullable (Concat r s) = (nullable r \<and> nullable s)"
| "nullable (Alternate r s) = (nullable r \<or> nullable s)"
| "nullable (Star r) = True"
| "nullable (Plus r) = nullable r"
| "nullable (Quest r) = True"

text \<open>What is left of \<open>r\<close> after it has read the character \<open>c\<close>.\<close>

fun deriv :: "char \<Rightarrow> regex \<Rightarrow> regex" where
  "deriv c EmptyMatch = NoMatch"
| "deriv c NoMatch = NoMatch"
| "deriv c (Literal d f) =
     (if (if f then toLower c = toLower d else c = d) then EmptyMatch else NoMatch)"
| "deriv c AnyCharNotNL = (if c = CHR 0x0A then NoMatch else EmptyMatch)"
| "deriv c (Concat r s) =
     (if nullable r then Alternate (Concat (deriv c r) s) (deriv c s)
      else Concat (deriv c r) s)"
| "deriv c (Alternate r s) = Alternate (deriv c r) (deriv c s)"
| "deriv c (Star r) = Concat (deriv c r) (Star r)"
| "deriv c (Plus r) = Concat (deriv c r) (Star r)"
| "deriv c (Quest r) = deriv c r"

text \<open>Some prefix of the subject is matched by \<open>r\<close>.\<close>

fun matchPrefix :: "regex \<Rightarrow> string \<Rightarrow> bool" where
  "matchPrefix r [] = nullable r"
| "matchPrefix r (c # cs) = (nullable r \<or> matchPrefix (deriv c r) cs)"

text \<open>\<open>re.MatchString(s)\<close>: the expression matches somewhere in \<open>s\<close> (it is not anchored).\<close>

fun MatchString :: "regex \<Rightarrow> string \<Rightarrow> bool" where
  "MatchString r [] = nullable r"
| "MatchString r (c # cs) = (matchPrefix r (c # cs) \<or> MatchString r cs)"

subsection \<open>Parsing\<close>

datatype parse_failure = BadSyntax | NotModelled

text \<open>
  A frame is the group being read: its finished alternatives and the items of the
  alternative in progress, newest first in both lists.
\<close>

type_synonym frame = "regex list \<times> regex list"

definition concat_items :: "regex list \<Rightarrow> regex" where
  "concat_items items = (case rev items of [] \<Rightarrow> EmptyMatch | r # rs \<Rightarrow> foldl Concat r rs)"

definition collapse :: "frame \<Rightarrow> regex" where
  "collapse fr =
     (case rev (concat_items (snd fr) # fst fr) of
        [] \<Rightarrow> EmptyMatch
      | r # rs \<Rightarrow> foldl Alternate r rs)"

definition repeat_op :: "char \<Rightarrow> regex \<Rightarrow> regex" where
  "repeat_op c r = (if c = CHR ''*'' then Star r else if c = CHR ''+'' then Plus r else Quest r)"

definition skip_nongreedy :: "string \<Rightarrow> string" where
  "skip_nongreedy t = (case t of [] \<Rightarrow> [] | q # t1 \<Rightarrow> if q = CHR ''?'' then t1 else t)"

lemma length_skip_nongreedy: "length (skip_nongreedy t) \<le> length t"
  by (simp add: skip_nongreedy_def split: list.splits)

text \<open>
  The parser keeps the fold-case flag, whether the token just read was a repetition
  (the library refuses two in a row), the frame in progress and the enclosing frames,
  each with the flag to restore when its group closes.
\<close>

function parse ::
  "bool \<Rightarrow> bool \<Rightarrow> frame \<Rightarrow> (bool \<times> frame) list \<Rightarrow> string \<Rightarrow> parse_failure + regex"
where
  "parse foldCase lastRepeat fr stack [] =
     (if stack = [] then Inr (collapse fr) else Inl BadSyntax)"
| "parse foldCase lastRepeat fr stack (c # t) =
     (if c = CHR ''('' then
        (case t of
           [] \<Rightarrow> parse foldCase False ([], []) ((foldCase, fr) # stack) t
         | q # t1 \<Rightarrow>
             if q \<noteq> CHR ''?'' then parse foldCase False ([], []) ((foldCase, fr) # stack) t
             else
               (case t1 of
                  [] \<Rightarrow> Inl BadSyntax
                | a # t2 \<Rightarrow>
                    if a = CHR '':'' then parse foldCase False ([], []) ((foldCase, fr) # stack) t2
                    else if a = CHR ''i'' then
                      (case t2 of
                         [] \<Rightarrow> Inl BadSyntax
                       | b # t3 \<Rightarrow>
                           if b = CHR '')'' then parse True False fr stack t3
                           else if b = CHR '':'' then
                             parse True False ([], []) ((foldCase, fr) # stack) t3
                           else Inl NotModelled)
                    else if a = CHR ''-'' then
                      (case t2 of
                         [] \<Rightarrow> Inl BadSyntax
                       | b # t3 \<Rightarrow>
                           if b = CHR ''i'' then
                             (case t3 of
                                [] \<Rightarrow> Inl BadSyntax
                              | d # t4 \<Rightarrow>
                                  if d = CHR '')'' then parse False False fr stack t4
                                  else if d = CHR '':'' then
                                    parse False False ([], []) ((foldCase, fr) # stack) t4
                                  else Inl NotModelled)
                           else Inl NotModelled)
                    else Inl NotModelled))
      else if c = CHR '')'' then
        (case stack of
           [] \<Rightarrow> Inl BadSyntax
         | (saved, outer) # stack' \<Rightarrow>
             parse saved False (fst outer, collapse fr # snd outer) stack' t)
      else if c = CHR ''|'' then
        parse foldCase False (concat_items (snd fr) # fst fr, []) stack t
      else if c = CHR ''*'' \<or> c = CHR ''+'' \<or> c = CHR ''?'' then
        (if lastRepeat then Inl BadSyntax
         else
           (case snd fr of
              [] \<Rightarrow> Inl BadSyntax
            | r # rs \<Rightarrow> parse foldCase True (fst fr, repeat_op c r # rs) stack (skip_nongreedy t)))
      else if c = CHR ''.'' then parse foldCase False (fst fr, AnyCharNotNL # snd fr) stack t
      else if c = CHR 0x5C then
        (case t of
           [] \<Rightarrow> Inl BadSyntax
         | e # t1 \<Rightarrow>
             if (of_char e :: nat) < 128 \<and> \<not> isalnum e
             then parse foldCase False (fst fr, Literal e foldCase # snd fr) stack t1
             else Inl NotModelled)
      else if c = CHR ''^'' \<or> c = CHR ''$'' \<or> c = CHR ''['' \<or> c = CHR ''{''
              \<or> 128 \<le> (of_char c :: nat)
        then Inl NotModelled
      else parse foldCase False (fst fr, Literal c foldCase # snd fr) stack t)"
  by pat_completeness auto
termination
proof (relation "measure (\<lambda>(foldCase, lastRepeat, fr, stack, s). length s)")
  fix foldCase lastRepeat :: bool and fr :: frame and stack :: "(bool \<times> frame) list"
    and c :: char and t :: string and r :: regex and rs :: "regex list"
  show "((foldCase, True, (fst fr, repeat_op c r # rs), stack, skip_nongreedy t),
         (foldCase, lastRepeat, fr, stack, c # t))
        \<in> measure (\<lambda>(foldCase, lastRepeat, fr, stack, s). length s)"
    using length_skip_nongreedy [of t] by simp
qed simp_all

text \<open>
  \<open>regexp.Compile(expr)\<close> on the fragment. The error carries the expression, as the
  library's \<open>syntax.Error\<close> does. \<open>RegexpSyntax\<close> is an answer of the library;
  \<open>RegexpNotModelled\<close> is not: it marks an expression outside the fragment, about which
  nothing is stated. What is proved of \<open>Compile\<close> below concerns expressions inside the
  fragment, and what holds of every compiler is proved for every compiler.
\<close>

definition Compile :: "string \<Rightarrow> error + regex" where
  "Compile expr =
     (case parse False False ([], []) [] expr of
        Inl BadSyntax \<Rightarrow> Inl (RegexpSyntax expr)
      | Inl NotModelled \<Rightarrow> Inl (RegexpNotModelled expr)
      | Inr re \<Rightarrow> Inr re)"


section \<open>What the program does to the outside\<close>

text \<open>
  A function that returns may also panic, or wait for something that the environment
  never delivers. Everything a function does besides computing its result is listed, in
  order, in the effects it returns.
\<close>

datatype 'a outcome = Returns 'a | Panics string | Blocks

datatype goroutine =
    ForwardPorts                       \<comment> \<open>\<open>go func() { errChan <- forwarder.ForwardPorts() }()\<close>\<close>
  | WatchMessages string bool          \<comment> \<open>\<open>go logClient.WatchMessages(o.MsgPath, o.JSON)\<close>\<close>
  | WatchAlerts                        \<comment> \<open>\<open>go logClient.WatchAlerts(o)\<close>\<close>
  | WatchLogs                          \<comment> \<open>\<open>go logClient.WatchLogs(o)\<close>\<close>

datatype effect =
    Go goroutine
  | PrintDefaults                      \<comment> \<open>\<open>flag.PrintDefaults()\<close>\<close>
  | Stderr string
  | Stdout string
  | PodsList string "(string \<times> string) list"   \<comment> \<open>the pod query: namespace and labels\<close>
  | NetListen int bool                 \<comment> \<open>a bind on \<open>127.0.0.1:port\<close> and whether it succeeded\<close>
  | ListenerClose bool                 \<comment> \<open>closing the probe listener, and whether it succeeded\<close>
  | RandRead bool                      \<comment> \<open>a draw from \<open>rand.Reader\<close>, and whether it succeeded\<close>
  | ForwarderClose

section \<open>Package utils: the port forward\<close>

text \<open>
  \<open>int64\<close> is modelled by \<open>int\<close>: the only arithmetic on it adds 32768 to a value
  below 132.
\<close>

record PortForwardOpt =
  LocalPort :: int
  RemotePort :: int
  MatchLabels :: "(string \<times> string) list"
  Namespace :: string
  PodName :: string

record Pod =
  GetName :: string
  GetNamespace :: string

text \<open>
  One turn of the loop of \<open>getLocalPort\<close> sees the network and the random source as they
  are at that moment: \<open>net_Listen port\<close> is \<open>Inl err\<close> when the bind fails and
  \<open>Inr r\<close> when it gives a listener whose \<open>Close\<close> returns \<open>r\<close>; \<open>rand_Reader\<close> is
  what the random source yields, \<open>None\<close> when reading it fails.
\<close>

record attempt =
  net_Listen :: "int \<Rightarrow> error + error option"
  rand_Reader :: "nat option"

datatype forwarding = Ready | Ended "error option" | Silent

text \<open>
  The collaborators: the cluster client, the operating system, the telemetry client.
  Each field is the answer the collaborator gives. \<open>NewClient\<close>, \<open>DoHealthCheck\<close>
  and \<open>DestroyClient\<close> belong to the package but not to the two source files: the
  model takes their results and nothing else from them.
\<close>

record Feeder =
  Running :: bool
  server :: string

datatype event = QuotaReached | Signal | StopRequest | Tick

record env =
  LookupEnv :: "string \<Rightarrow> string option"
  Pods_List :: "string \<Rightarrow> (string \<times> string) list \<Rightarrow> error + Pod list"
  attempts :: "attempt list"
  RoundTripperFor :: "error option"
  portforward_New :: "string \<Rightarrow> string list \<Rightarrow> error option"
  forwarder :: forwarding
  NewClient :: "string \<Rightarrow> string \<Rightarrow> string \<Rightarrow> string \<Rightarrow> 32 word \<Rightarrow> Feeder option"
  DoHealthCheck :: bool
  events :: "event list"
  DestroyClient :: "error option"

text \<open>\<open>strconv.FormatInt(i, 10)\<close>.\<close>

fun digits10 :: "nat \<Rightarrow> string" where
  "digits10 n =
     (if n < 10 then [''0123456789'' ! n]
      else digits10 (n div 10) @ [''0123456789'' ! (n mod 10)])"

declare digits10.simps [simp del]

definition FormatInt :: "int \<Rightarrow> string" where
  "FormatInt i = (if i < 0 then CHR ''-'' # digits10 (nat (- i)) else digits10 (nat i))"

text \<open>
  \<open>rand.Int(rand.Reader, bound)\<close> with a positive bound returns a value in
  \<open>[0, bound)\<close> or the error of the reader. Which value is up to the random source:
  the model reduces what the source yields.
\<close>

definition rand_Int :: "nat option \<Rightarrow> int \<Rightarrow> error + int" where
  "rand_Int reader bound =
     (case reader of
        None \<Rightarrow> Inl (Foreign ''rand.Reader'')
      | Some e \<Rightarrow> Inr (int e mod bound))"

definition getRandomInt :: "nat option \<Rightarrow> int \<times> error option" where
  "getRandomInt reader =
     (case rand_Int reader (32900 - 32768) of
        Inl err \<Rightarrow> (- 1, Some (ErrorString ''unable to generate random integer for port''))
      | Inr n \<Rightarrow> (n, None))"

text \<open>
  The loop of \<open>getLocalPort\<close>, started on a port. It has no exit of its own: when the
  attempts the environment describes are used up it is still running.
\<close>

fun getLocalPort_loop ::
  "attempt list \<Rightarrow> string \<Rightarrow> int \<Rightarrow> (int \<times> error option) outcome \<times> effect list"
where
  "getLocalPort_loop [] podName port = (Blocks, [])"
| "getLocalPort_loop (a # rest) podName port =
     (case net_Listen a port of
        Inr closed \<Rightarrow>
          (case closed of
             Some err \<Rightarrow> (Returns (- 1, Some err), [NetListen port True, ListenerClose False])
           | None \<Rightarrow>
               (Returns (port, None),
                [NetListen port True, ListenerClose True,
                 Stderr (''local port to be used for port forwarding '' @ podName @ '': ''
                         @ FormatInt port @ '' '' @ [CHR 0x0A])]))
      | Inl busy \<Rightarrow>
          (case getRandomInt (rand_Reader a) of
             (n, Some err) \<Rightarrow> (Returns (n, Some err), [NetListen port False, RandRead False])
           | (n, None) \<Rightarrow>
               (case getLocalPort_loop rest podName (n + 32768) of
                  (r, effs) \<Rightarrow> (r, [NetListen port False, RandRead True] @ effs))))"

definition getLocalPort ::
  "env \<Rightarrow> PortForwardOpt \<Rightarrow> (int \<times> error option) outcome \<times> effect list"
where
  "getLocalPort c pf = getLocalPort_loop (attempts c) (PodName pf) (LocalPort pf)"

definition getPodName :: "env \<Rightarrow> PortForwardOpt \<Rightarrow> error option \<times> PortForwardOpt \<times> effect list" where
  "getPodName c pf =
     (case Pods_List c (Namespace pf) (MatchLabels pf) of
        Inl err \<Rightarrow> (Some err, pf, [PodsList (Namespace pf) (MatchLabels pf)])
      | Inr items \<Rightarrow>
          (case items of
             [] \<Rightarrow>
               (Some (ErrorString ''kubearmor pod not found''), pf,
                [PodsList (Namespace pf) (MatchLabels pf)])
           | first # others \<Rightarrow>
               (None, pf\<lparr>PodName := GetName first, Namespace := GetNamespace first\<rparr>,
                [PodsList (Namespace pf) (MatchLabels pf)])))"

definition fmt_s :: "error option \<Rightarrow> string" where
  "fmt_s err = (case err of None \<Rightarrow> ''%!s(<nil>)'' | Some e \<Rightarrow> Error e)"

text \<open>
  The round tripper, the dialer and the forwarder come from the cluster libraries; the
  model keeps their outcomes, the request path and the port pair handed to
  \<open>portforward.New\<close>.
\<close>

definition k8sPortForward :: "env \<Rightarrow> PortForwardOpt \<Rightarrow> error option outcome \<times> effect list" where
  "k8sPortForward c pf =
     (case RoundTripperFor c of
        Some err \<Rightarrow>
          (Returns (Some (ErrorString
             (CHR 0x0A # ''unable to create round tripper and upgrader, error='' @ Error err))),
           [])
      | None \<Rightarrow>
          (let path = ''/api/v1/namespaces/'' @ Namespace pf @ ''/pods/'' @ PodName pf
                        @ ''/portforward''
           in case portforward_New c path
                     [FormatInt (LocalPort pf) @ '':'' @ FormatInt (RemotePort pf)] of
                Some err \<Rightarrow>
                  (Returns (Some (ErrorString
                     (CHR 0x0A # ''unable to portforward. error='' @ Error err))), [])
              | None \<Rightarrow>
                  (case forwarder c of
                     Ended err \<Rightarrow>
                       (Returns (Some (ErrorString (''could not create port forward '' @ fmt_s err))),
                        [Go ForwardPorts, ForwarderClose])
                   | Ready \<Rightarrow> (Returns None, [Go ForwardPorts])
                   | Silent \<Rightarrow> (Blocks, [Go ForwardPorts]))))"

definition handlePortForward ::
  "env \<Rightarrow> PortForwardOpt \<Rightarrow> error option outcome \<times> PortForwardOpt \<times> effect list"
where
  "handlePortForward c pf =
     (case getPodName c pf of
        (Some err, pf1, effs1) \<Rightarrow> (Returns (Some err), pf1, effs1)
      | (None, pf1, effs1) \<Rightarrow>
          (case getLocalPort c pf1 of
             (Blocks, effs2) \<Rightarrow> (Blocks, pf1, effs1 @ effs2)
           | (Panics msg, effs2) \<Rightarrow> (Panics msg, pf1, effs1 @ effs2)
           | (Returns (lp, Some err), effs2) \<Rightarrow> (Returns (Some err), pf1, effs1 @ effs2)
           | (Returns (lp, None), effs2) \<Rightarrow>
               (let pf2 = pf1\<lparr>LocalPort := lp\<rparr>
                in case k8sPortForward c pf2 of
                     (Returns (Some err), effs3) \<Rightarrow>
                       (Returns (Some (ErrorString
                          (CHR 0x0A # ''could not do kubearmor portforward, error='' @ Error err))),
                        pf2, effs1 @ effs2 @ effs3)
                   | (r, effs3) \<Rightarrow> (r, pf2, effs1 @ effs2 @ effs3))))"

definition InitiatePortForward ::
  "env \<Rightarrow> int \<Rightarrow> int \<Rightarrow> (string \<times> string) list
   \<Rightarrow> (PortForwardOpt \<times> error option) outcome \<times> effect list"
where
  "InitiatePortForward c localPort remotePort matchLabels =
     (let pf = \<lparr>LocalPort = localPort, RemotePort = remotePort, MatchLabels = matchLabels,
                Namespace = '''', PodName = ''''\<rparr>
      in case handlePortForward c pf of
           (Returns err, pf', effs) \<Rightarrow> (Returns (pf', err), effs)
         | (Panics msg, pf', effs) \<Rightarrow> (Panics msg, effs)
         | (Blocks, pf', effs) \<Rightarrow> (Blocks, effs))"

section \<open>Package log: the observer\<close>

record Options =
  GRPC :: string
  MsgPath :: string
  LogPath :: string
  LogFilter :: string
  JSON :: bool
  Namespace :: string
  LogType :: string
  Operation :: string
  ContainerName :: string
  PodName :: string
  Source :: string
  Resource :: string
  Limit :: "32 word"
  Selector :: "string list"
  EventChan :: "nat option"

text \<open>
  The variables of the package. A compiled expression is a pointer, \<open>None\<close> is \<open>nil\<close>.
  \<open>StopChan\<close> refers to a channel by its number, and \<open>closed\<close> is the set of channels
  that have been closed, so that closing a channel is seen through every reference to
  it. \<open>sigChan\<close> holds at most one signal and \<open>Limitchan\<close> at most two reports; for
  both \<open>None\<close> is the \<open>nil\<close> channel. \<open>logClient\<close> is the client of the running
  session.
\<close>

record 'r world =
  CNamespace :: "'r option"
  CLogtype :: "'r option"
  COperation :: "'r option"
  CContainerName :: "'r option"
  CPodName :: "'r option"
  CSource :: "'r option"
  CResource :: "'r option"
  StopChan :: "nat option"
  closed :: "nat set"
  sigChan :: "bool option"
  unblockSignal :: bool
  Limitchan :: "nat option"
  logClient :: "Feeder option"

definition matchLabels :: "(string \<times> string) list" where
  "matchLabels = [(''kubearmor-app'', ''kubearmor-relay'')]"

definition port :: int where
  "port = 32767"

subsection \<open>regexCompile\<close>

text \<open>
  \<open>X, err = regexp.Compile(expr)\<close> assigns the package variable in both cases: the
  compiled expression, or \<open>nil\<close> next to the error.
\<close>

definition compile_into ::
  "(string \<Rightarrow> error + 'r) \<Rightarrow> (('r option \<Rightarrow> 'r option) \<Rightarrow> 'r world \<Rightarrow> 'r world) \<Rightarrow> string
   \<Rightarrow> 'r world \<Rightarrow> error option \<times> 'r world"
where
  "compile_into compile var expr w =
     (case compile expr of
        Inl err \<Rightarrow> (Some err, var (\<lambda>_. None) w)
      | Inr re \<Rightarrow> (None, var (\<lambda>_. Some re) w))"

text \<open>\<open>if err != nil { return err }\<close> between two steps.\<close>

definition or_return ::
  "error option \<times> 'w \<Rightarrow> ('w \<Rightarrow> error option \<times> 'w) \<Rightarrow> error option \<times> 'w"
where
  "or_return step rest =
     (case step of
        (Some err, w) \<Rightarrow> (Some err, w)
      | (None, w) \<Rightarrow> rest w)"

definition regexCompile ::
  "(string \<Rightarrow> error + 'r) \<Rightarrow> Options \<Rightarrow> 'r world \<Rightarrow> error option \<times> 'r world"
where
  "regexCompile compile o' w =
     or_return (compile_into compile CNamespace_update (''(?i)'' @ Namespace o') w) (\<lambda>w.
     or_return (compile_into compile CLogtype_update (''(?i)'' @ LogType o') w) (\<lambda>w.
     or_return (compile_into compile COperation_update (''(?i)'' @ Operation o') w) (\<lambda>w.
     or_return (compile_into compile CContainerName_update (''(?i)'' @ ContainerName o') w) (\<lambda>w.
     or_return (compile_into compile CPodName_update (''(?i)'' @ PodName o') w) (\<lambda>w.
     or_return (compile_into compile CSource_update (Source o') w) (\<lambda>w.
     or_return (compile_into compile CResource_update (Resource o') w) (\<lambda>w.
     (None, w))))))))"

subsection \<open>closeStopChan and StopObserver\<close>

text \<open>\<open>close\<close> on a channel that is already closed panics.\<close>

definition closeStopChan :: "'r world \<Rightarrow> 'r world outcome" where
  "closeStopChan w =
     (case StopChan w of
        None \<Rightarrow> Returns w
      | Some ch \<Rightarrow>
          if ch \<in> closed w then Panics ''close of closed channel''
          else Returns (w\<lparr>closed := insert ch (closed w), StopChan := None\<rparr>))"

definition StopObserver :: "'r world \<Rightarrow> 'r world" where
  "StopObserver w = w\<lparr>unblockSignal := True\<rparr>"

subsection \<open>Waiting for the end of the session\<close>

text \<open>
  Modelled from the spec: the watchers (\<open>WatchAlerts\<close>, \<open>WatchLogs\<close>) are not in
  the two source files. By the specification a watcher that has reached its quota
  reports once on the completion gate; that report is the event \<open>QuotaReached\<close>, a
  send on \<open>Limitchan\<close> (a send on a full channel does not complete). The other events
  come from outside the package: the operating system delivers a signal to \<open>sigChan\<close>
  (dropped when one is already buffered), somebody calls \<open>StopObserver\<close>, and the 50 ms
  of \<open>time.Sleep\<close> run out (\<open>Tick\<close>). While the controller waits, the environment
  gives these events in the order in which they happen.
\<close>

fun occur :: "event \<Rightarrow> 'r world \<Rightarrow> 'r world" where
  "occur QuotaReached w = w\<lparr>Limitchan := map_option (\<lambda>n. min 2 (Suc n)) (Limitchan w)\<rparr>"
| "occur Signal w = w\<lparr>sigChan := map_option (\<lambda>_. True) (sigChan w)\<rparr>"
| "occur StopRequest w = StopObserver w"
| "occur Tick w = w"

text \<open>
  \<open><-Limitchan\<close>: takes a report when one is there, and waits for the next event
  otherwise. The result is the events still to come, or \<open>None\<close> when the events are used
  up and the receive is still waiting.
\<close>

fun recvLimitchan :: "event list \<Rightarrow> 'r world \<Rightarrow> event list option \<times> 'r world" where
  "recvLimitchan [] w =
     (case Limitchan w of
        Some (Suc n) \<Rightarrow> (Some [], w\<lparr>Limitchan := Some n\<rparr>)
      | _ \<Rightarrow> (None, w))"
| "recvLimitchan (e # es) w =
     (case Limitchan w of
        Some (Suc n) \<Rightarrow> (Some (e # es), w\<lparr>Limitchan := Some n\<rparr>)
      | _ \<Rightarrow> recvLimitchan es (occur e w))"

text \<open>The \<open>select\<close> of the polling loop: take a buffered signal, or fall through.\<close>

definition selectSigChan :: "'r world \<Rightarrow> 'r world" where
  "selectSigChan w =
     (case sigChan w of
        Some True \<Rightarrow> w\<lparr>sigChan := Some False, unblockSignal := True\<rparr>
      | _ \<Rightarrow> w)"

text \<open>
  \<open>for !unblockSignal { time.Sleep(...); select {...} }\<close>. The flag \<open>asleep\<close> tells
  whether the loop is inside its sleep or at its head, where alone it tests
  \<open>unblockSignal\<close>.
\<close>

fun pollSignals :: "bool \<Rightarrow> event list \<Rightarrow> 'r world \<Rightarrow> event list option \<times> 'r world" where
  "pollSignals asleep [] w =
     (if \<not> asleep \<and> unblockSignal w then (Some [], w) else (None, w))"
| "pollSignals asleep (e # es) w =
     (if \<not> asleep \<and> unblockSignal w then (Some (e # es), w)
      else if e = Tick then pollSignals False es (selectSigChan w)
      else pollSignals True es (occur e w))"

text \<open>Lines 184 to 203 of \<open>StartObserver\<close>.\<close>

definition awaitTermination ::
  "Options \<Rightarrow> event list \<Rightarrow> 'r world \<Rightarrow> event list option \<times> 'r world"
where
  "awaitTermination o' evs w =
     (if Limit o' \<noteq> 0 then
        (if LogFilter o' = ''all'' then
           (case recvLimitchan evs w of
              (None, w1) \<Rightarrow> (None, w1)
            | (Some evs1, w1) \<Rightarrow> recvLimitchan evs1 w1)
         else recvLimitchan evs w)
      else pollSignals False evs (w\<lparr>unblockSignal := False, sigChan := Some False\<rparr>))"

subsection \<open>StartObserver\<close>

text \<open>Lines 119 to 131: the address of the service.\<close>

definition resolveAddress :: "env \<Rightarrow> Options \<Rightarrow> (error + string) outcome \<times> effect list" where
  "resolveAddress c o' =
     (if GRPC o' \<noteq> '''' then (Returns (Inr (GRPC o')), [])
      else
        (case LookupEnv c ''KUBEARMOR_SERVICE'' of
           Some val \<Rightarrow> (Returns (Inr val), [])
         | None \<Rightarrow>
             (case InitiatePortForward c port port matchLabels of
                (Returns (pf, Some err), effs) \<Rightarrow> (Returns (Inl err), effs)
              | (Returns (pf, None), effs) \<Rightarrow>
                  (Returns (Inr (''localhost:'' @ FormatInt (LocalPort pf))), effs)
              | (Panics msg, effs) \<Rightarrow> (Panics msg, effs)
              | (Blocks, effs) \<Rightarrow> (Blocks, effs))))"

text \<open>Lines 169 to 182: the completion gate and the watchers of alerts and logs.\<close>

definition launchWatchers :: "Options \<Rightarrow> 'r world \<Rightarrow> 'r world \<times> effect list" where
  "launchWatchers o' w =
     (w\<lparr>Limitchan := Some 0\<rparr>,
      (if LogPath o' \<noteq> ''none'' then
         (if LogFilter o' = ''all'' \<or> LogFilter o' = ''policy''
          then [Go WatchAlerts, Stderr (''Started to watch alerts'' @ [CHR 0x0A])] else [])
         @ (if LogFilter o' = ''all'' \<or> LogFilter o' = ''system''
            then [Go WatchLogs, Stderr (''Started to watch logs'' @ [CHR 0x0A])] else [])
       else []))"

text \<open>Lines 204 to 210: the release.\<close>

definition release :: "env \<Rightarrow> 'r world \<Rightarrow> error option outcome \<times> 'r world \<times> effect list" where
  "release c w =
     (case closeStopChan w of
        Panics msg \<Rightarrow> (Panics msg, w, [Stderr (''releasing grpc client'' @ [CHR 0x0A])])
      | Blocks \<Rightarrow> (Blocks, w, [Stderr (''releasing grpc client'' @ [CHR 0x0A])])
      | Returns w1 \<Rightarrow>
          (Returns (DestroyClient c),
           w1\<lparr>logClient := map_option (\<lambda>fd. fd\<lparr>Running := False\<rparr>) (logClient w1)\<rparr>,
           [Stderr (''releasing grpc client'' @ [CHR 0x0A])]))"

definition StartObserver ::
  "(string \<Rightarrow> error + 'r) \<Rightarrow> env \<Rightarrow> Options \<Rightarrow> 'r world
   \<Rightarrow> error option outcome \<times> 'r world \<times> effect list"
where
  "StartObserver compile c o' w =
     (case resolveAddress c o' of
        (Blocks, effs0) \<Rightarrow> (Blocks, w, effs0)
      | (Panics msg, effs0) \<Rightarrow> (Panics msg, w, effs0)
      | (Returns (Inl err), effs0) \<Rightarrow> (Returns (Some err), w, effs0)
      | (Returns (Inr gRPC), effs0) \<Rightarrow>
          if MsgPath o' = ''none'' \<and> LogPath o' = ''none''
          then (Returns None, w, effs0 @ [PrintDefaults])
          else if LogFilter o' \<noteq> ''all'' \<and> LogFilter o' \<noteq> ''policy'' \<and> LogFilter o' \<noteq> ''system''
          then (Returns None, w, effs0 @ [PrintDefaults])
          else
            (case NewClient c gRPC (MsgPath o') (LogPath o') (LogFilter o') (Limit o') of
               None \<Rightarrow> (Returns (Some (ErrorString ''unable to create log client'')), w, effs0)
             | Some fd \<Rightarrow>
                 (let w1 = w\<lparr>logClient := Some fd\<rparr>;
                      effs1 = effs0 @ [Stderr (''Created a gRPC client ('' @ gRPC @ '')'' @ [CHR 0x0A])]
                  in if \<not> DoHealthCheck c
                     then (Returns (Some (ErrorString
                             ''failed to check the liveness of the gRPC server'')), w1, effs1)
                     else
                       (let effs2 = effs1
                              @ [Stderr (''Checked the liveness of the gRPC server'' @ [CHR 0x0A])]
                              @ (if MsgPath o' \<noteq> ''none''
                                 then [Go (WatchMessages (MsgPath o') (JSON o')),
                                       Stderr (''Started to watch messages'' @ [CHR 0x0A])]
                                 else [])
                        in case regexCompile compile o' w1 of
                             (Some err, w2) \<Rightarrow>
                               (Returns (Some err), w2, effs2 @ [Stdout (Error err)])
                           | (None, w2) \<Rightarrow>
                               (case launchWatchers o' w2 of
                                  (w3, effs3) \<Rightarrow>
                                    (case awaitTermination o' (events c) w3 of
                                       (None, w4) \<Rightarrow> (Blocks, w4, effs2 @ effs3)
                                     | (Some rest, w4) \<Rightarrow>
                                         (case release c w4 of
                                            (r, w5, effs5) \<Rightarrow> (r, w5, effs2 @ effs3 @ effs5))))))))"

section \<open>Reading the effects, and inputs for the examples\<close>

text \<open>The ports on which a bind was attempted, in order.\<close>

fun attempted :: "effect list \<Rightarrow> int list" where
  "attempted [] = []"
| "attempted (NetListen p ok # es) = p # attempted es"
| "attempted (e # es) = attempted es"

text \<open>
  Three kinds of turn of the port loop: every port is taken and the random source yields
  \<open>e\<close>; every port is taken and the random source fails; every port is free.
\<close>

definition busy :: "nat \<Rightarrow> attempt" where
  "busy e = \<lparr>net_Listen = (\<lambda>p. Inl (Foreign ''bind: address already in use'')),
             rand_Reader = Some e\<rparr>"


definition free :: attempt where
  "free = \<lparr>net_Listen = (\<lambda>p. Inr None), rand_Reader = Some 0\<rparr>"

definition relay :: Pod where
  "relay = \<lparr>GetName = ''kubearmor-relay-5d4f'', GetNamespace = ''kubearmor''\<rparr>"

definition stray :: Pod where
  "stray = \<lparr>GetName = ''kubearmor-relay-old'', GetNamespace = ''default''\<rparr>"

text \<open>
  A cluster with two matching pods, port 32767 taken at the first bind, and a service
  that is alive.
\<close>

definition cluster :: env where
  "cluster =
     \<lparr>LookupEnv = (\<lambda>name. None),
      Pods_List = (\<lambda>ns labels. if ns = '''' \<and> labels = matchLabels
                                then Inr [relay, stray] else Inr []),
      attempts = [busy 7, free],
      RoundTripperFor = None,
      portforward_New = (\<lambda>path ports. None),
      forwarder = Ready,
      NewClient = (\<lambda>srv msg log mode limit. Some \<lparr>Running = True, server = srv\<rparr>),
      DoHealthCheck = True,
      events = [QuotaReached, StopRequest, Tick, QuotaReached, Signal],
      DestroyClient = None\<rparr>"

definition lease :: PortForwardOpt where
  "lease = \<lparr>LocalPort = port, RemotePort = port, MatchLabels = matchLabels,
             PortForwardOpt.Namespace = ''kubearmor'',
             PortForwardOpt.PodName = ''kubearmor-relay-5d4f''\<rparr>"

text \<open>The package before a session: nothing compiled, an open stop channel.\<close>

definition idle :: "regex world" where
  "idle =
     \<lparr>CNamespace = None, CLogtype = None, COperation = None, CContainerName = None,
      CPodName = None, CSource = None, CResource = None,
      StopChan = Some 0, closed = {}, sigChan = None, unblockSignal = False,
      Limitchan = None, logClient = None\<rparr>"

text \<open>
  The seven expressions in the order in which \<open>regexCompile\<close> hands them to the
  compiler, the seven package variables in the same order, the first error of a list of
  compilation results, and what a run of assignments that stops at the first error
  leaves in the variables.
\<close>

definition patterns :: "Options \<Rightarrow> string list" where
  "patterns o' =
     [''(?i)'' @ Namespace o', ''(?i)'' @ LogType o', ''(?i)'' @ Operation o',
      ''(?i)'' @ ContainerName o', ''(?i)'' @ PodName o', Source o', Resource o']"

definition compiled :: "'r world \<Rightarrow> 'r option list" where
  "compiled w =
     [CNamespace w, CLogtype w, COperation w, CContainerName w, CPodName w, CSource w,
      CResource w]"

fun firstError :: "(error + 'r) list \<Rightarrow> error option" where
  "firstError [] = None"
| "firstError (Inl err # rs) = Some err"
| "firstError (Inr re # rs) = firstError rs"

fun publish :: "(error + 'r) list \<Rightarrow> 'r option list \<Rightarrow> 'r option list" where
  "publish (Inr re # rs) (old # olds) = Some re # publish rs olds"
| "publish (Inl err # rs) (old # olds) = None # olds"
| "publish rs olds = olds"

text \<open>The events that are left once \<open>n\<close> reports have arrived, if that many arrive.\<close>

fun afterReports :: "nat \<Rightarrow> event list \<Rightarrow> event list option" where
  "afterReports 0 evs = Some evs"
| "afterReports (Suc n) [] = None"
| "afterReports (Suc n) (e # es) =
     (if e = QuotaReached then afterReports n es else afterReports (Suc n) es)"

text \<open>
  What makes the polling loop leave at its next wake-up: the flag is set, a signal is
  buffered, or one of the events \<open>pre\<close> sets the flag or reaches the signal channel.
\<close>

definition armed :: "'r world \<Rightarrow> event list \<Rightarrow> bool" where
  "armed w pre \<longleftrightarrow>
     unblockSignal w \<or> sigChan w = Some True \<or> StopRequest \<in> set pre
     \<or> (sigChan w \<noteq> None \<and> Signal \<in> set pre)"

text \<open>
  A session on an explicit address that watches alerts and logs with a quota of five;
  the same with the message watcher on and an operation filter that does not compile;
  and one that has to find the service itself.
\<close>

definition watch :: Options where
  "watch =
     \<lparr>GRPC = ''localhost:32767'', MsgPath = ''none'', LogPath = ''stdout'',
      LogFilter = ''all'', JSON = False,
      Namespace = ''kube-system'', LogType = '''', Operation = '''', ContainerName = '''',
      PodName = '''', Source = ''/usr/bin/curl'', Resource = '''',
      Limit = 5, Selector = [], EventChan = None\<rparr>"

definition broken :: Options where
  "broken = watch\<lparr>MsgPath := ''stdout'', Operation := ''(''\<rparr>"

definition discover :: Options where
  "discover = watch\<lparr>GRPC := '''', LogFilter := ''audit''\<rparr>"

text \<open>
  An expression all of whose literals carry the same fold-case flag \<open>b\<close>, and the same
  for the frames and the whole state of the parser.
\<close>

fun cased :: "bool \<Rightarrow> regex \<Rightarrow> bool" where
  "cased b (Literal c f) = (f = b)"
| "cased b (Concat r s) = (cased b r \<and> cased b s)"
| "cased b (Alternate r s) = (cased b r \<and> cased b s)"
| "cased b (Star r) = cased b r"
| "cased b (Plus r) = cased b r"
| "cased b (Quest r) = cased b r"
| "cased b r = True"

definition cased_frame :: "bool \<Rightarrow> frame \<Rightarrow> bool" where
  "cased_frame b fr \<longleftrightarrow> list_all (cased b) (fst fr) \<and> list_all (cased b) (snd fr)"

definition casing :: "bool \<Rightarrow> bool \<Rightarrow> frame \<Rightarrow> (bool \<times> frame) list \<Rightarrow> bool" where
  "casing b fc fr stack \<longleftrightarrow>
     fc = b \<and> cased_frame b fr
     \<and> list_all (\<lambda>(saved, outer). saved = b \<and> cased_frame b outer) stack"

text \<open>
  A filter that sets no flag of its own (no parenthesis in it is followed by a
  question mark), and a character that the syntax of expressions gives no meaning to,
  so that a filter of such characters is plain text.
\<close>

fun noflags :: "string \<Rightarrow> bool" where
  "noflags (a # b # t) = (\<not> (a = CHR ''('' \<and> b = CHR ''?'') \<and> noflags (b # t))"
| "noflags t = True"

definition plain :: "char \<Rightarrow> bool" where
  "plain c \<longleftrightarrow> (of_char c :: nat) < 128 \<and> c \<notin> set ''()|*+?.^$[{'' \<and> c \<noteq> CHR 0x5C"

definition ascii :: "string \<Rightarrow> bool" where
  "ascii s \<longleftrightarrow> list_all (\<lambda>c. (of_char c :: nat) < 128) s"

text \<open>
  The strings that an expression matches from their first to their last character,
  against which the matcher is checked below.
\<close>

fun lang :: "regex \<Rightarrow> string set" where
  "lang EmptyMatch = {[]}"
| "lang NoMatch = {}"
| "lang (Literal d f) = {[c] | c. if f then toLower c = toLower d else c = d}"
| "lang AnyCharNotNL = {[c] | c. c \<noteq> CHR 0x0A}"
| "lang (Concat r s) = {u @ v | u v. u \<in> lang r \<and> v \<in> lang s}"
| "lang (Alternate r s) = lang r \<union> lang s"
| "lang (Star r) = {concat ws | ws. set ws \<subseteq> lang r}"
| "lang (Plus r) = {u @ concat ws | u ws. u \<in> lang r \<and> set ws \<subseteq> lang r}"
| "lang (Quest r) = insert [] (lang r)"

definition same :: "bool \<Rightarrow> string \<Rightarrow> string \<Rightarrow> bool" where
  "same b v g \<longleftrightarrow> (if b then map toLower v = map toLower g else v = g)"

text \<open>
  What a variable holds for a plain filter \<open>f\<close>: an expression that accepts the
  subjects which contain \<open>f\<close>, exactly as written, or up to the case of the letters (on
  subjects of ASCII characters, where a character is a byte).
\<close>

definition contains_exact :: "regex option \<Rightarrow> string \<Rightarrow> bool" where
  "contains_exact v f \<longleftrightarrow>
     (case v of
        None \<Rightarrow> False
      | Some re \<Rightarrow> \<forall>s. MatchString re s \<longleftrightarrow> (\<exists>u w. s = u @ f @ w))"

definition contains_folded :: "regex option \<Rightarrow> string \<Rightarrow> bool" where
  "contains_folded v f \<longleftrightarrow>
     (case v of
        None \<Rightarrow> False
      | Some re \<Rightarrow>
          \<forall>s. ascii s \<longrightarrow>
            (MatchString re s \<longleftrightarrow> (\<exists>u x w. s = u @ x @ w \<and> map toLower x = map toLower f)))"



section \<open>The local port\<close>

lemma getRandomInt_range:
  "getRandomInt reader = (n, None) \<Longrightarrow> 0 \<le> n \<and> n < 132"
  by (auto simp: getRandomInt_def rand_Int_def split: option.splits)


text \<open>
  The first port tried is the one the loop was started on; every later one is 32768 plus
  a draw below 132.
\<close>

lemma attempted_loop:
  "attempted (snd (getLocalPort_loop as nm p)) = [] \<and> as = []
   \<or> (\<exists>qs. attempted (snd (getLocalPort_loop as nm p)) = p # qs
        \<and> (\<forall>q \<in> set qs. \<exists>n. 0 \<le> n \<and> n < 132 \<and> q = 32768 + n))"
proof (induction as arbitrary: p)
  case Nil
  then show ?case by simp
next
  case (Cons a as)
  show ?case
  proof (cases "net_Listen a p")
    case (Inr c)
    then show ?thesis by (cases c) auto
  next
    case (Inl taken)
    obtain n e where g: "getRandomInt (rand_Reader a) = (n, e)"
      by (cases "getRandomInt (rand_Reader a)")
    show ?thesis
    proof (cases e)
      case (Some err)
      with Inl g show ?thesis by simp
    next
      case None
      with g have r: "0 \<le> n \<and> n < 132" using getRandomInt_range by blast
      obtain res effs where l: "getLocalPort_loop as nm (n + 32768) = (res, effs)"
        by (cases "getLocalPort_loop as nm (n + 32768)")
      from Cons.IH [of "n + 32768"] l
      have "attempted effs = [] \<or> (\<exists>qs. attempted effs = (n + 32768) # qs
              \<and> (\<forall>q \<in> set qs. \<exists>n. 0 \<le> n \<and> n < 132 \<and> q = 32768 + n))"
        by auto
      with Inl g None l r show ?thesis by auto
    qed
  qed
qed

lemma loop_success_port:
  "fst (getLocalPort_loop as nm p) = Returns (q, None) \<Longrightarrow>
     q = p \<or> (32768 \<le> q \<and> q \<le> 32899)"
proof (induction as arbitrary: p)
  case Nil
  then show ?case by simp
next
  case (Cons a as)
  show ?case
  proof (cases "net_Listen a p")
    case (Inr c)
    with Cons.prems show ?thesis by (cases c) auto
  next
    case (Inl taken)
    obtain n e where g: "getRandomInt (rand_Reader a) = (n, e)"
      by (cases "getRandomInt (rand_Reader a)")
    show ?thesis
    proof (cases e)
      case (Some err)
      with Inl g Cons.prems show ?thesis by simp
    next
      case None
      with g have r: "0 \<le> n \<and> n < 132" using getRandomInt_range by blast
      from Inl g None Cons.prems
      have "fst (getLocalPort_loop as nm (n + 32768)) = Returns (q, None)"
        by (simp split: prod.splits)
      from Cons.IH [OF this] r show ?thesis by auto
    qed
  qed
qed

lemma loop_first_busy:
  assumes "net_Listen a p = Inl err"
    and "fst (getLocalPort_loop (a # rest) nm p) = Returns (q, None)"
  shows "32768 \<le> q \<and> q \<le> 32899"
proof -
  obtain n e where g: "getRandomInt (rand_Reader a) = (n, e)"
    by (cases "getRandomInt (rand_Reader a)")
  show ?thesis
  proof (cases e)
    case (Some err')
    with assms g show ?thesis by simp
  next
    case None
    with g have r: "0 \<le> n \<and> n < 132" using getRandomInt_range by blast
    from assms g None
    have "fst (getLocalPort_loop rest nm (n + 32768)) = Returns (q, None)"
      by (simp split: prod.splits)
    from loop_success_port [OF this] r show ?thesis by auto
  qed
qed

lemma loop_busy_free:
  "n < 132 \<Longrightarrow> fst (getLocalPort_loop [busy n, free] nm p) = Returns (32768 + int n, None)"
  by (simp add: busy_def free_def getRandomInt_def rand_Int_def)

text \<open>
  C7. After a failed bind every port that \<open>getLocalPort\<close> tries is 32768 plus a value
  drawn from the 132 values 0 to 131, so it lies in 32768 to 32899, above the default
  port 32767. When the bind on 32767 fails and the allocation succeeds, the port
  returned lies in that range. Each of the 132 ports can be the one returned. (That the
  draw is uniform is a property of the random source and is not stated.)
\<close>

theorem fallback_port_range:
  "(\<forall>q \<in> set (tl (attempted (snd (getLocalPort c pf)))).
       (\<exists>n. 0 \<le> n \<and> n < 132 \<and> q = 32768 + n) \<and> 32768 \<le> q \<and> q \<le> 32899 \<and> port < q)
   \<and> (\<forall>a rest q. LocalPort pf = port \<and> attempts c = a # rest \<and> isl (net_Listen a port)
          \<and> fst (getLocalPort c pf) = Returns (q, None)
        \<longrightarrow> 32768 \<le> q \<and> q \<le> 32899)
   \<and> (\<forall>n < 132. fst (getLocalPort_loop [busy n, free] nm p) = Returns (32768 + int n, None))"
proof (intro conjI)
  show "\<forall>q \<in> set (tl (attempted (snd (getLocalPort c pf)))).
       (\<exists>n. 0 \<le> n \<and> n < 132 \<and> q = 32768 + n) \<and> 32768 \<le> q \<and> q \<le> 32899 \<and> port < q"
  proof
    fix q
    assume "q \<in> set (tl (attempted (snd (getLocalPort c pf))))"
    with attempted_loop [of "attempts c" "PortForwardOpt.PodName pf" "LocalPort pf"]
    obtain n where "0 \<le> n" "n < 132" "q = 32768 + n"
      unfolding getLocalPort_def by fastforce
    then show "(\<exists>n. 0 \<le> n \<and> n < 132 \<and> q = 32768 + n) \<and> 32768 \<le> q \<and> q \<le> 32899 \<and> port < q"
      by (auto simp: port_def)
  qed
  show "\<forall>a rest q. LocalPort pf = port \<and> attempts c = a # rest \<and> isl (net_Listen a port)
          \<and> fst (getLocalPort c pf) = Returns (q, None)
        \<longrightarrow> 32768 \<le> q \<and> q \<le> 32899"
    using loop_first_busy by (auto simp: getLocalPort_def isl_def)
  show "\<forall>n < 132. fst (getLocalPort_loop [busy n, free] nm p) = Returns (32768 + int n, None)"
    using loop_busy_free by blast
qed

theorem fallback_port_range_witness:
  "32775 \<in> set (tl (attempted (snd (getLocalPort cluster lease))))
   \<and> (\<exists>n. 0 \<le> n \<and> n < 132 \<and> (32775::int) = 32768 + n) \<and> port < 32775
   \<and> LocalPort lease = port \<and> attempts cluster = [busy 7, free]
   \<and> isl (net_Listen (busy 7) port)
   \<and> fst (getLocalPort cluster lease) = Returns (32775, None)
   \<and> (7::nat) < 132
   \<and> fst (getLocalPort_loop [busy 7, free] '''' port) = Returns (32775, None)"
  using fallback_port_range [of cluster lease "''''" port]
  by (simp add: getLocalPort_def cluster_def lease_def busy_def free_def getRandomInt_def
        rand_Int_def port_def)








section \<open>The pod behind the port forward\<close>

lemma getPodName_query:
  "snd (snd (getPodName c pf)) = [PodsList (PortForwardOpt.Namespace pf) (MatchLabels pf)]"
  by (simp add: getPodName_def split: sum.splits list.splits)

lemma handlePortForward_query:
  "\<exists>rest. snd (snd (handlePortForward c pf))
            = PodsList (PortForwardOpt.Namespace pf) (MatchLabels pf) # rest"
  using getPodName_query [of c pf]
  by (auto simp: handlePortForward_def Let_def split: prod.splits option.splits outcome.splits)

lemma handlePortForward_pod:
  assumes "Pods_List c (PortForwardOpt.Namespace pf) (MatchLabels pf) = Inr (first # others)"
  shows "PortForwardOpt.PodName (fst (snd (handlePortForward c pf))) = GetName first
       \<and> PortForwardOpt.Namespace (fst (snd (handlePortForward c pf))) = GetNamespace first"
  using assms
  by (auto simp: handlePortForward_def getPodName_def Let_def
           split: prod.splits option.splits outcome.splits)

lemma handlePortForward_none:
  assumes "Pods_List c (PortForwardOpt.Namespace pf) (MatchLabels pf) = Inr []"
  shows "handlePortForward c pf
         = (Returns (Some (ErrorString ''kubearmor pod not found'')), pf,
            [PodsList (PortForwardOpt.Namespace pf) (MatchLabels pf)])"
  using assms by (simp add: handlePortForward_def getPodName_def)

text \<open>
  C10. \<open>InitiatePortForward\<close> first asks for the pods with the given labels in the empty
  namespace, that is in all namespaces. When the list that comes back is not empty, the
  lease it returns carries the name and the namespace of the first pod of the list.
  When the list is empty it returns the error "kubearmor pod not found" and the pod
  name of the lease is still empty.
\<close>

theorem InitiatePortForward_pod:
  "(\<exists>rest. snd (InitiatePortForward c lp rp labels) = PodsList '''' labels # rest)
   \<and> (\<forall>first others pf err.
         Pods_List c '''' labels = Inr (first # others)
         \<and> fst (InitiatePortForward c lp rp labels) = Returns (pf, err)
         \<longrightarrow> PortForwardOpt.PodName pf = GetName first
             \<and> PortForwardOpt.Namespace pf = GetNamespace first)
   \<and> (Pods_List c '''' labels = Inr [] \<longrightarrow>
         (\<exists>pf. fst (InitiatePortForward c lp rp labels)
                 = Returns (pf, Some (ErrorString ''kubearmor pod not found''))
              \<and> PortForwardOpt.PodName pf = ''''))"
proof -
  let ?pf = "\<lparr>LocalPort = lp, RemotePort = rp, MatchLabels = labels,
              PortForwardOpt.Namespace = '''', PortForwardOpt.PodName = ''''\<rparr>"
  have query: "\<exists>rest. snd (InitiatePortForward c lp rp labels) = PodsList '''' labels # rest"
    using handlePortForward_query [of c ?pf]
    by (auto simp: InitiatePortForward_def split: prod.splits outcome.splits)
  have chosen: "PortForwardOpt.PodName pf = GetName first
          \<and> PortForwardOpt.Namespace pf = GetNamespace first"
    if "Pods_List c '''' labels = Inr (first # others)
         \<and> fst (InitiatePortForward c lp rp labels) = Returns (pf, err)"
    for first others pf err
    using that handlePortForward_pod [of c ?pf first others]
    by (auto simp: InitiatePortForward_def split: prod.splits outcome.splits)
  have missing: "\<exists>pf. fst (InitiatePortForward c lp rp labels)
                 = Returns (pf, Some (ErrorString ''kubearmor pod not found''))
              \<and> PortForwardOpt.PodName pf = ''''"
    if "Pods_List c '''' labels = Inr []"
    using that handlePortForward_none [of c ?pf]
    by (simp add: InitiatePortForward_def)
  from query chosen missing show ?thesis by blast
qed

theorem InitiatePortForward_pod_witness:
  "Pods_List cluster '''' matchLabels = Inr (relay # [stray])
   \<and> fst (InitiatePortForward cluster port port matchLabels)
       = Returns (\<lparr>LocalPort = 32775, RemotePort = 32767, MatchLabels = matchLabels,
                   PortForwardOpt.Namespace = ''kubearmor'',
                   PortForwardOpt.PodName = ''kubearmor-relay-5d4f''\<rparr>, None)
   \<and> GetName relay = ''kubearmor-relay-5d4f'' \<and> GetNamespace relay = ''kubearmor''
   \<and> Pods_List cluster '''' [] = Inr []
   \<and> (\<exists>pf. fst (InitiatePortForward cluster port port [])
                 = Returns (pf, Some (ErrorString ''kubearmor pod not found''))
              \<and> PortForwardOpt.PodName pf = '''')"
proof -
  have l: "Pods_List cluster '''' matchLabels = Inr (relay # [stray])"
    by (simp add: cluster_def)
  have e: "Pods_List cluster '''' [] = Inr []"
    by (simp add: cluster_def matchLabels_def)
  have r: "fst (InitiatePortForward cluster port port matchLabels)
           = Returns (\<lparr>LocalPort = 32775, RemotePort = 32767, MatchLabels = matchLabels,
                       PortForwardOpt.Namespace = ''kubearmor'',
                       PortForwardOpt.PodName = ''kubearmor-relay-5d4f''\<rparr>, None)"
    by (simp add: InitiatePortForward_def handlePortForward_def getPodName_def getLocalPort_def
          k8sPortForward_def cluster_def busy_def free_def getRandomInt_def rand_Int_def
          relay_def port_def)
  from InitiatePortForward_pod [of cluster port port matchLabels] l e r
    InitiatePortForward_pod [of cluster port port "[]"]
  show ?thesis by (simp add: relay_def)
qed

section \<open>Releasing the stop channel\<close>

text \<open>
  C4. Calling \<open>closeStopChan\<close> a second time changes nothing: two calls in a row end as
  one call does; after a call that returned, \<open>StopChan\<close> is \<open>nil\<close> and the next call
  returns the same state without a panic; and when \<open>StopChan\<close> was never set the call
  returns the state as it found it. The same holds for the whole release at the end of
  \<open>StartObserver\<close>: run again on the state it left, it returns and leaves that state.
\<close>

theorem closeStopChan_idempotent:
  "(case closeStopChan w of Returns w1 \<Rightarrow> closeStopChan w1 | other \<Rightarrow> other) = closeStopChan w
   \<and> (\<forall>w1. closeStopChan w = Returns w1 \<longrightarrow> StopChan w1 = None \<and> closeStopChan w1 = Returns w1)
   \<and> (StopChan w = None \<longrightarrow> closeStopChan w = Returns w)
   \<and> (\<forall>r w1 effs. release c w = (Returns r, w1, effs) \<longrightarrow>
         closeStopChan w1 = Returns w1 \<and> fst (snd (release c w1)) = w1
         \<and> (\<exists>r'. fst (release c w1) = Returns r'))"
proof -
  have once: "(case closeStopChan w of Returns w1 \<Rightarrow> closeStopChan w1 | other \<Rightarrow> other)
              = closeStopChan w"
    by (auto simp: closeStopChan_def split: option.splits)
  have again: "StopChan w1 = None \<and> closeStopChan w1 = Returns w1"
    if "closeStopChan w = Returns w1" for w1
    using that by (auto simp: closeStopChan_def split: option.splits if_splits)
  have unset: "closeStopChan w = Returns w" if "StopChan w = None"
    using that by (simp add: closeStopChan_def)
  have whole: "closeStopChan w1 = Returns w1 \<and> fst (snd (release c w1)) = w1
         \<and> (\<exists>r'. fst (release c w1) = Returns r')"
    if "release c w = (Returns r, w1, effs)" for r w1 effs
  proof -
    from that obtain w0 where w0: "closeStopChan w = Returns w0"
      and w1: "w1 = w0\<lparr>logClient := map_option (\<lambda>fd. fd\<lparr>Running := False\<rparr>) (logClient w0)\<rparr>"
      by (auto simp: release_def split: outcome.splits)
    from again [OF w0] w1 have c: "closeStopChan w1 = Returns w1"
      by (simp add: closeStopChan_def)
    have "w1\<lparr>logClient := map_option (\<lambda>fd. fd\<lparr>Running := False\<rparr>) (logClient w1)\<rparr> = w1"
      using w1 by (cases "logClient w0") simp_all
    with c show ?thesis by (simp add: release_def)
  qed
  from once again unset whole show ?thesis by blast
qed

theorem closeStopChan_idempotent_witness:
  "closeStopChan idle = Returns (idle\<lparr>closed := {0}, StopChan := None\<rparr>)
   \<and> closeStopChan (idle\<lparr>closed := {0}, StopChan := None\<rparr>)
       = Returns (idle\<lparr>closed := {0}, StopChan := None\<rparr>)
   \<and> StopChan (idle\<lparr>StopChan := None\<rparr>) = None
   \<and> closeStopChan (idle\<lparr>StopChan := None\<rparr>) = Returns (idle\<lparr>StopChan := None\<rparr>)
   \<and> release cluster idle
       = (Returns None, idle\<lparr>closed := {0}, StopChan := None\<rparr>,
          [Stderr (''releasing grpc client'' @ [CHR 0x0A])])
   \<and> fst (snd (release cluster (idle\<lparr>closed := {0}, StopChan := None\<rparr>)))
       = idle\<lparr>closed := {0}, StopChan := None\<rparr>"
proof -
  have r: "release cluster idle
       = (Returns None, idle\<lparr>closed := {0}, StopChan := None\<rparr>,
          [Stderr (''releasing grpc client'' @ [CHR 0x0A])])"
    by (simp add: release_def closeStopChan_def idle_def cluster_def)
  from closeStopChan_idempotent [of idle cluster]
    closeStopChan_idempotent [of "idle\<lparr>StopChan := None\<rparr>" cluster] r
  show ?thesis
    by (simp add: closeStopChan_def idle_def)
qed

section \<open>Compiling the filters\<close>

lemma regexCompile_result:
  "fst (regexCompile compile o' w) = firstError (map compile (patterns o'))"
  by (simp add: regexCompile_def or_return_def compile_into_def patterns_def split: sum.splits)

lemma regexCompile_compiled:
  "compiled (snd (regexCompile compile o' w)) = publish (map compile (patterns o')) (compiled w)"
  by (simp add: regexCompile_def or_return_def compile_into_def patterns_def compiled_def
        split: sum.splits)

lemma regexCompile_success:
  "fst (regexCompile compile o' w) = None \<Longrightarrow>
     compiled (snd (regexCompile compile o' w))
       = map (\<lambda>p. case compile p of Inr re \<Rightarrow> Some re | Inl err \<Rightarrow> None) (patterns o')"
  by (simp add: regexCompile_def or_return_def compile_into_def patterns_def compiled_def
        split: sum.splits)

lemma firstError_Some_iff: "firstError rs \<noteq> None \<longleftrightarrow> (\<exists>r \<in> set rs. isl r)"
  by (induction rs rule: firstError.induct) auto

lemma Compile_empty: "Compile '''' = Inr EmptyMatch" "Compile ''(?i)'' = Inr EmptyMatch"
  by (simp_all add: Compile_def collapse_def concat_items_def)

lemma EmptyMatch_all: "MatchString EmptyMatch s"
  by (cases s) simp_all

subsection \<open>Folding case\<close>

lemma toLower_idem: "toLower (toLower c) = toLower c"
  by (auto simp: toLower_def Let_def)

lemma toLower_newline: "toLower c = CHR 0x0A \<longleftrightarrow> c = CHR 0x0A"
proof -
  have "(of_char (toLower c) :: nat) = 10 \<longleftrightarrow> (of_char c :: nat) = 10"
    by (auto simp: toLower_def Let_def)
  moreover have "(of_char (CHR 0x0A) :: nat) = 10" by simp
  ultimately show ?thesis by (metis of_char_eq_iff)
qed

lemma deriv_cased: "cased b r \<Longrightarrow> cased b (deriv c r)"
  by (induction r) auto

lemma deriv_toLower: "cased True r \<Longrightarrow> deriv (toLower c) r = deriv c r"
  by (induction r) (auto simp: toLower_idem toLower_newline)

lemma matchPrefix_toLower:
  "cased True r \<Longrightarrow> matchPrefix r (map toLower s) = matchPrefix r s"
  by (induction s arbitrary: r) (simp_all add: deriv_toLower deriv_cased)

lemma MatchString_toLower:
  "cased True r \<Longrightarrow> MatchString r (map toLower s) = MatchString r s"
proof (induction s)
  case Nil
  then show ?case by simp
next
  case (Cons c s)
  from matchPrefix_toLower [OF Cons.prems, of "c # s"] Cons show ?case by simp
qed

lemma cased_foldl_Concat:
  "cased b r \<Longrightarrow> list_all (cased b) rs \<Longrightarrow> cased b (foldl Concat r rs)"
  by (induction rs arbitrary: r) simp_all

lemma cased_foldl_Alternate:
  "cased b r \<Longrightarrow> list_all (cased b) rs \<Longrightarrow> cased b (foldl Alternate r rs)"
  by (induction rs arbitrary: r) simp_all

lemma cased_concat_items: "list_all (cased b) items \<Longrightarrow> cased b (concat_items items)"
proof -
  assume a: "list_all (cased b) items"
  define xs where "xs = rev items"
  with a have "list_all (cased b) xs" by (simp add: list_all_iff)
  then have "cased b (case xs of [] \<Rightarrow> EmptyMatch | r # rs \<Rightarrow> foldl Concat r rs)"
    by (cases xs) (simp_all add: cased_foldl_Concat)
  then show ?thesis by (simp add: concat_items_def xs_def)
qed

lemma cased_collapse: "cased_frame b fr \<Longrightarrow> cased b (collapse fr)"
proof -
  assume a: "cased_frame b fr"
  define xs where "xs = rev (concat_items (snd fr) # fst fr)"
  from a have "list_all (cased b) (concat_items (snd fr) # fst fr)"
    by (simp add: cased_frame_def cased_concat_items)
  then have "list_all (cased b) xs" by (simp add: list_all_iff xs_def)
  then have "cased b (case xs of [] \<Rightarrow> EmptyMatch | r # rs \<Rightarrow> foldl Alternate r rs)"
    by (cases xs) (simp_all add: cased_foldl_Alternate)
  then show ?thesis by (simp add: collapse_def xs_def)
qed

lemma cased_repeat_op: "cased b r \<Longrightarrow> cased b (repeat_op c r)"
  by (simp add: repeat_op_def)

lemma casing_steps:
  "casing b fc fr stack \<Longrightarrow> casing b fc ([], []) ((fc, fr) # stack)"
  "casing b fc fr ((saved, a, d) # stack') \<Longrightarrow> casing b saved (a, collapse fr # d) stack'"
  "casing b fc fr stack \<Longrightarrow> casing b fc (concat_items (snd fr) # fst fr, []) stack"
  "casing b fc fr stack \<Longrightarrow> snd fr = r # rs \<Longrightarrow>
     casing b fc (fst fr, repeat_op c r # rs) stack"
  "casing b fc fr stack \<Longrightarrow> casing b fc (fst fr, AnyCharNotNL # snd fr) stack"
  "casing b fc fr stack \<Longrightarrow> casing b fc (fst fr, Literal e fc # snd fr) stack"
  by (auto simp: casing_def cased_frame_def cased_collapse cased_concat_items
        cased_repeat_op)

lemma noflags_tl: "noflags (x # xs) \<Longrightarrow> noflags xs"
  by (cases xs) simp_all

lemma noflags_skip: "noflags (x # xs) \<Longrightarrow> noflags (skip_nongreedy xs)"
  by (cases xs) (auto simp: skip_nongreedy_def dest: noflags_tl)

text \<open>
  As long as no flag group is read, the parser leaves the fold-case flag as it found
  it, and every literal it makes carries that flag.
\<close>

lemma parse_cased:
  "parse fc lr fr stack s = Inr re \<Longrightarrow> casing b fc fr stack \<Longrightarrow> noflags s \<Longrightarrow> cased b re"
proof (induction s arbitrary: fc lr fr stack rule: length_induct)
  case (1 s)
  show ?case
  proof (cases s)
    case Nil
    with "1.prems" cased_collapse [of b fr] show ?thesis
      by (auto simp: casing_def split: if_splits)
  next
    case (Cons c t)
    have step: "cased b re"
      if "parse fc' lr' fr' stack' t' = Inr re" "casing b fc' fr' stack'"
        "length t' \<le> length t" "noflags t'"
      for fc' lr' fr' stack' t'
      using "1.IH" [rule_format, OF _ that(1) that(2) that(4)] that(3) Cons by simp
    have skip: "length (skip_nongreedy t) \<le> length t"
      by (rule length_skip_nongreedy)
    from "1.prems"(1) have p: "parse fc lr fr stack (c # t) = Inr re"
      using Cons by simp
    note f = "1.prems"(2)
    from "1.prems"(3) Cons have nf: "noflags (c # t)" by simp
    have step': False
      if "parse fc' lr' fr' stack' t' = Inr re" "\<not> cased b re" "casing b fc' fr' stack'"
        "length t' \<le> length t" "noflags t'"
      for fc' lr' fr' stack' t'
      using step [OF that(1) that(3) that(4) that(5)] that(2) by simp
    from p f nf show ?thesis
      apply (subst (asm) parse.simps(2))
      apply (auto simp del: parse.simps split: if_splits list.splits prod.splits)
      apply (((erule step | erule (1) step');
              ((erule casing_steps, (assumption)?) | erule noflags_tl | erule noflags_skip
                | simp add: skip))+)
      done
  qed
qed

lemma Compile_folded: "Compile (''(?i)'' @ p) = Inr re \<Longrightarrow> noflags p \<Longrightarrow> cased True re"
proof -
  assume c: "Compile (''(?i)'' @ p) = Inr re" and n: "noflags p"
  have "parse False False ([], []) [] (''(?i)'' @ p) = parse True False ([], []) [] p"
    by simp
  with c have "parse True False ([], []) [] p = Inr re"
    by (simp add: Compile_def del: parse.simps split: sum.splits parse_failure.splits)
  moreover have "casing True True ([], []) []"
    by (simp add: casing_def cased_frame_def)
  ultimately show ?thesis using n by (rule parse_cased)
qed

lemma Compile_exact: "Compile p = Inr re \<Longrightarrow> noflags p \<Longrightarrow> cased False re"
proof -
  assume c: "Compile p = Inr re" and n: "noflags p"
  from c have "parse False False ([], []) [] p = Inr re"
    by (simp add: Compile_def del: parse.simps split: sum.splits parse_failure.splits)
  moreover have "casing False False ([], []) []"
    by (simp add: casing_def cased_frame_def)
  ultimately show ?thesis using n by (rule parse_cased)
qed

lemma Compile_ignores_case:
  assumes "Compile (''(?i)'' @ p) = Inr re" and "noflags p" and "map toLower s = map toLower t"
  shows "MatchString re s = MatchString re t"
proof -
  from assms(1,2) have "cased True re" by (rule Compile_folded)
  then have "MatchString re s = MatchString re (map toLower s)"
    and "MatchString re t = MatchString re (map toLower t)"
    by (simp_all add: MatchString_toLower)
  with assms(3) show ?thesis by simp
qed

subsection \<open>What the matcher accepts\<close>

lemma nullable_lang: "nullable r \<longleftrightarrow> [] \<in> lang r"
proof (induction r)
  case (Star r)
  show ?case by (auto intro: exI [of _ "[]"])
next
  case (Plus r)
  show ?case using Plus by (auto intro: exI [of _ "[]"])
qed auto

lemma star_Cons:
  "(\<exists>ws. c # w = concat ws \<and> set ws \<subseteq> A)
   \<longleftrightarrow> (\<exists>u ws. w = u @ concat ws \<and> c # u \<in> A \<and> set ws \<subseteq> A)"
proof
  assume "\<exists>ws. c # w = concat ws \<and> set ws \<subseteq> A"
  then obtain ws where "c # w = concat ws" "set ws \<subseteq> A" by blast
  then show "\<exists>u ws. w = u @ concat ws \<and> c # u \<in> A \<and> set ws \<subseteq> A"
  proof (induction ws)
    case Nil
    then show ?case by simp
  next
    case (Cons x xs)
    show ?case
    proof (cases x)
      case Nil
      with Cons show ?thesis by simp
    next
      case (Cons d u)
      with Cons.prems have "w = u @ concat xs \<and> c # u \<in> A \<and> set xs \<subseteq> A" by auto
      then show ?thesis by blast
    qed
  qed
next
  assume "\<exists>u ws. w = u @ concat ws \<and> c # u \<in> A \<and> set ws \<subseteq> A"
  then obtain u ws where "w = u @ concat ws" "c # u \<in> A" "set ws \<subseteq> A" by blast
  then have "c # w = concat ((c # u) # ws) \<and> set ((c # u) # ws) \<subseteq> A" by simp
  then show "\<exists>ws. c # w = concat ws \<and> set ws \<subseteq> A" by blast
qed

lemma conc_Cons:
  "(\<exists>u v. c # w = u @ v \<and> u \<in> A \<and> v \<in> B)
   \<longleftrightarrow> (\<exists>u v. w = u @ v \<and> c # u \<in> A \<and> v \<in> B) \<or> ([] \<in> A \<and> c # w \<in> B)"
  by (auto simp: Cons_eq_append_conv)

lemma deriv_lang: "w \<in> lang (deriv c r) \<longleftrightarrow> c # w \<in> lang r"
proof (induction r arbitrary: w)
  case (Concat r s)
  have "c # w \<in> lang (Concat r s)
        \<longleftrightarrow> (\<exists>u v. w = u @ v \<and> c # u \<in> lang r \<and> v \<in> lang s) \<or> ([] \<in> lang r \<and> c # w \<in> lang s)"
    using conc_Cons [of c w "lang r" "lang s"] by simp
  with Concat show ?case by (auto simp: nullable_lang)
next
  case (Star r)
  have "c # w \<in> lang (Star r)
        \<longleftrightarrow> (\<exists>u ws. w = u @ concat ws \<and> c # u \<in> lang r \<and> set ws \<subseteq> lang r)"
    using star_Cons [of c w "lang r"] by simp
  with Star show ?case by auto
next
  case (Plus r)
  have "c # w \<in> lang (Plus r)
        \<longleftrightarrow> (\<exists>u ws. w = u @ concat ws \<and> c # u \<in> lang r \<and> set ws \<subseteq> lang r)"
  proof
    assume "c # w \<in> lang (Plus r)"
    then obtain x ws where x: "c # w = x @ concat ws" "x \<in> lang r" "set ws \<subseteq> lang r" by auto
    then have "c # w = concat (x # ws) \<and> set (x # ws) \<subseteq> lang r" by simp
    then have "\<exists>ws. c # w = concat ws \<and> set ws \<subseteq> lang r" by blast
    then show "\<exists>u ws. w = u @ concat ws \<and> c # u \<in> lang r \<and> set ws \<subseteq> lang r"
      by (simp only: star_Cons)
  next
    assume "\<exists>u ws. w = u @ concat ws \<and> c # u \<in> lang r \<and> set ws \<subseteq> lang r"
    then obtain u ws where "w = u @ concat ws" "c # u \<in> lang r" "set ws \<subseteq> lang r" by blast
    then have "c # w = (c # u) @ concat ws \<and> c # u \<in> lang r \<and> set ws \<subseteq> lang r" by simp
    then show "c # w \<in> lang (Plus r)" by (simp del: append.simps) blast
  qed
  with Plus show ?case by auto
qed auto

lemma matchPrefix_lang: "matchPrefix r s \<longleftrightarrow> (\<exists>u v. s = u @ v \<and> u \<in> lang r)"
proof (induction s arbitrary: r)
  case Nil
  then show ?case by (simp add: nullable_lang)
next
  case (Cons c s)
  have "(\<exists>u v. c # s = u @ v \<and> u \<in> lang r)
        \<longleftrightarrow> [] \<in> lang r \<or> (\<exists>u v. s = u @ v \<and> c # u \<in> lang r)"
    by (auto simp: Cons_eq_append_conv)
  with Cons [of "deriv c r"] show ?case by (simp add: nullable_lang deriv_lang)
qed

lemma MatchString_lang: "MatchString r s \<longleftrightarrow> (\<exists>u v w. s = u @ v @ w \<and> v \<in> lang r)"
proof (induction s)
  case Nil
  then show ?case by (simp add: nullable_lang)
next
  case (Cons c s)
  have "(\<exists>u v w. c # s = u @ v @ w \<and> v \<in> lang r)
        \<longleftrightarrow> (\<exists>v w. c # s = v @ w \<and> v \<in> lang r) \<or> (\<exists>u v w. s = u @ v @ w \<and> v \<in> lang r)"
    (is "?l \<longleftrightarrow> ?a \<or> ?b")
  proof
    assume ?l
    then obtain u v w where x: "c # s = u @ v @ w" "v \<in> lang r" by blast
    show "?a \<or> ?b"
    proof (cases u)
      case Nil
      with x show ?thesis by auto
    next
      case (Cons d u')
      with x have "s = u' @ v @ w" by simp
      with x(2) show ?thesis by blast
    qed
  next
    assume "?a \<or> ?b"
    then show ?l
    proof
      assume ?a
      then obtain v w where "c # s = [] @ v @ w" "v \<in> lang r" by auto
      then show ?l by blast
    next
      assume ?b
      then obtain u v w where "c # s = (c # u) @ v @ w" "v \<in> lang r" by auto
      then show ?l by blast
    qed
  qed
  with Cons show ?case by (simp add: matchPrefix_lang del: matchPrefix.simps)
qed

subsection \<open>Plain filters\<close>

lemma parse_plain:
  "list_all plain f \<Longrightarrow>
     parse fc lr (alts, cur) stack f
       = parse fc False (alts, rev (map (\<lambda>c. Literal c fc) f) @ cur) stack []"
proof (induction f arbitrary: lr cur)
  case Nil
  then show ?case by simp
next
  case (Cons c f)
  from Cons.prems have c: "plain c" and f: "list_all plain f" by simp_all
  from c have "parse fc lr (alts, cur) stack (c # f)
               = parse fc False (alts, Literal c fc # cur) stack f"
    by (simp add: plain_def del: parse.simps add: parse.simps(2))
  also have "\<dots> = parse fc False (alts, rev (map (\<lambda>c. Literal c fc) f) @ Literal c fc # cur) stack []"
    by (rule Cons.IH [OF f])
  finally show ?case by (simp del: parse.simps)
qed

lemma lang_foldl_Concat:
  "lang (foldl Concat r (map (\<lambda>c. Literal c b) g))
     = {u @ v | u v. u \<in> lang r \<and> same b v g}"
proof (induction g arbitrary: r)
  case Nil
  then show ?case by (simp add: same_def)
next
  case (Cons c g)
  have "{u @ v | u v. u \<in> lang (Concat r (Literal c b)) \<and> same b v g}
        = {u @ v | u v. u \<in> lang r \<and> same b v (c # g)}" (is "?l = ?r")
  proof (intro set_eqI iffI)
    fix x assume "x \<in> ?l"
    then obtain u d v where x: "x = (u @ [d]) @ v" "u \<in> lang r"
        "if b then toLower d = toLower c else d = c" "same b v g"
      by auto
    then have "x = u @ (d # v) \<and> u \<in> lang r \<and> same b (d # v) (c # g)"
      by (auto simp: same_def split: if_splits)
    then show "x \<in> ?r" by blast
  next
    fix x assume "x \<in> ?r"
    then obtain u v where x: "x = u @ v" "u \<in> lang r" "same b v (c # g)" by auto
    from x(3) obtain d v' where v: "v = d # v'" by (cases v) (auto simp: same_def split: if_splits)
    with x(3) have d: "if b then toLower d = toLower c else d = c" and v': "same b v' g"
      by (auto simp: same_def split: if_splits)
    from d have "[d] \<in> lang (Literal c b)" by (simp split: if_splits)
    with x(2) have "u @ [d] \<in> lang (Concat r (Literal c b))"
      by (simp del: lang.simps(3)) blast
    moreover from x(1) v have "x = (u @ [d]) @ v'" by simp
    ultimately show "x \<in> ?l" using v' by blast
  qed
  with Cons [of "Concat r (Literal c b)"] show ?case by simp
qed

lemma lang_word:
  "lang (collapse ([], rev (map (\<lambda>c. Literal c b) f))) = {v. same b v f}"
proof (cases f)
  case Nil
  then show ?thesis by (auto simp: collapse_def concat_items_def same_def)
next
  case (Cons c g)
  have "{u @ v | u v. u \<in> lang (Literal c b) \<and> same b v g} = {v. same b v (c # g)}"
    (is "?l = ?r")
  proof (intro set_eqI iffI)
    fix x assume "x \<in> ?l"
    then show "x \<in> ?r" by (auto simp: same_def split: if_splits)
  next
    fix x assume "x \<in> ?r"
    then have s: "same b x (c # g)" by simp
    then obtain d v where x: "x = d # v" by (cases x) (auto simp: same_def split: if_splits)
    with s have "x = [d] @ v \<and> [d] \<in> lang (Literal c b) \<and> same b v g"
      by (auto simp: same_def split: if_splits)
    then show "x \<in> ?l" by blast
  qed
  with Cons lang_foldl_Concat [of "Literal c b" b g] show ?thesis
    by (simp add: collapse_def concat_items_def)
qed

lemma Compile_plain:
  assumes "list_all plain f"
  shows "\<exists>re. Compile f = Inr re \<and> lang re = {f}"
proof -
  have "parse False False ([], []) [] f
        = Inr (collapse ([], rev (map (\<lambda>c. Literal c False) f)))"
    using parse_plain [OF assms, of False False "[]" "[]" "[]"] by simp
  then have "Compile f = Inr (collapse ([], rev (map (\<lambda>c. Literal c False) f)))"
    by (simp add: Compile_def)
  moreover have "lang (collapse ([], rev (map (\<lambda>c. Literal c False) f))) = {f}"
    by (auto simp: lang_word same_def)
  ultimately show ?thesis by blast
qed

lemma Compile_plain_folded:
  assumes "list_all plain f"
  shows "\<exists>re. Compile (''(?i)'' @ f) = Inr re \<and> lang re = {v. map toLower v = map toLower f}"
proof -
  have "parse False False ([], []) [] (''(?i)'' @ f) = parse True False ([], []) [] f"
    by simp
  also have "\<dots> = Inr (collapse ([], rev (map (\<lambda>c. Literal c True) f)))"
    using parse_plain [OF assms, of True False "[]" "[]" "[]"] by simp
  finally have "Compile (''(?i)'' @ f) = Inr (collapse ([], rev (map (\<lambda>c. Literal c True) f)))"
    by (simp add: Compile_def del: parse.simps)
  moreover have "lang (collapse ([], rev (map (\<lambda>c. Literal c True) f)))
                 = {v. map toLower v = map toLower f}"
    by (auto simp: lang_word same_def)
  ultimately show ?thesis by blast
qed

lemma contains_exact_plain:
  assumes "list_all plain f"
  shows "contains_exact (case Compile f of Inr re \<Rightarrow> Some re | Inl err \<Rightarrow> None) f"
proof -
  from Compile_plain [OF assms] obtain re where c: "Compile f = Inr re" and l: "lang re = {f}"
    by blast
  have "MatchString re s \<longleftrightarrow> (\<exists>u w. s = u @ f @ w)" for s
    by (simp add: MatchString_lang l)
  with c show ?thesis by (simp add: contains_exact_def)
qed

lemma contains_folded_plain:
  assumes "list_all plain f"
  shows "contains_folded
           (case Compile (''(?i)'' @ f) of Inr re \<Rightarrow> Some re | Inl err \<Rightarrow> None) f"
proof -
  from Compile_plain_folded [OF assms] obtain re where c: "Compile (''(?i)'' @ f) = Inr re"
    and l: "lang re = {v. map toLower v = map toLower f}"
    by blast
  have "MatchString re s \<longleftrightarrow> (\<exists>u x w. s = u @ x @ w \<and> map toLower x = map toLower f)" for s
    by (simp add: MatchString_lang l)
  with c show ?thesis by (simp add: contains_folded_def del: append.simps)
qed

lemma Compile_plain_ok:
  "list_all plain f \<Longrightarrow> \<not> isl (Compile f)"
  "list_all plain f \<Longrightarrow> \<not> isl (Compile (''(?i)'' @ f))"
  using Compile_plain [of f] Compile_plain_folded [of f] by auto

lemma firstError_None_iff: "firstError rs = None \<longleftrightarrow> (\<forall>r \<in> set rs. \<not> isl r)"
  by (induction rs rule: firstError.induct) auto


text \<open>
  C5, as amended. \<open>regexCompile\<close> hands the seven expressions to the compiler in the
  order namespace, event kind, operation, container name, pod name, source, resource,
  the first five behind the marker \<open>(?i)\<close>, the last two as they are, and returns the
  first error in that order. It does leave a partial set: the variables of the filters
  before the failing one hold their new expressions, the variable of the failing one is
  \<open>nil\<close>, the later ones keep what they held. How a filter treats the case of letters
  follows from the marker only as long as the filter sets no flag of its own: behind the
  marker such a filter treats two subjects alike that differ only in the case of their
  letters, and without the marker none of its literals folds case; a filter of plain
  text accepts the subjects that contain it, up to the case of the letters in the first
  five variables and exactly as written in source and resource. With the namespace filter \<open>kube-system\<close> the compiled expression matches
  \<open>Kube-System\<close> and rejects \<open>default\<close>; the source filter \<open>/usr/bin/curl\<close> matches
  that path and rejects it in capitals. A filter with a flag group of its own decides
  for itself: the namespace filter \<open>(?-i)kube\<close> rejects \<open>KUBE-SYSTEM\<close>, the source
  filter \<open>(?i)curl\<close> accepts \<open>/USR/BIN/CURL\<close>.
\<close>

theorem regexCompile_order:
  "fst (regexCompile compile o' w) = firstError (map compile (patterns o'))
   \<and> compiled (snd (regexCompile compile o' w))
       = publish (map compile (patterns o')) (compiled w)
   \<and> patterns o'
       = [''(?i)'' @ Namespace o', ''(?i)'' @ LogType o', ''(?i)'' @ Operation o',
          ''(?i)'' @ ContainerName o', ''(?i)'' @ PodName o', Source o', Resource o']
   \<and> (\<forall>p re s t. noflags p \<and> Compile (''(?i)'' @ p) = Inr re
                  \<and> map toLower s = map toLower t
         \<longrightarrow> MatchString re s = MatchString re t)
   \<and> (\<forall>p re. noflags p \<and> Compile p = Inr re \<longrightarrow> cased False re)
   \<and> (fst (regexCompile Compile o' v) = None \<longrightarrow>
        (list_all plain (Namespace o') \<longrightarrow>
           contains_folded (CNamespace (snd (regexCompile Compile o' v))) (Namespace o'))
      \<and> (list_all plain (LogType o') \<longrightarrow>
           contains_folded (CLogtype (snd (regexCompile Compile o' v))) (LogType o'))
      \<and> (list_all plain (Operation o') \<longrightarrow>
           contains_folded (COperation (snd (regexCompile Compile o' v))) (Operation o'))
      \<and> (list_all plain (ContainerName o') \<longrightarrow>
           contains_folded (CContainerName (snd (regexCompile Compile o' v)))
             (ContainerName o'))
      \<and> (list_all plain (PodName o') \<longrightarrow>
           contains_folded (CPodName (snd (regexCompile Compile o' v))) (PodName o'))
      \<and> (list_all plain (Source o') \<longrightarrow>
           contains_exact (CSource (snd (regexCompile Compile o' v))) (Source o'))
      \<and> (list_all plain (Resource o') \<longrightarrow>
           contains_exact (CResource (snd (regexCompile Compile o' v))) (Resource o')))
   \<and> (list_all plain (Namespace o') \<and> list_all plain (LogType o')
        \<and> list_all plain (Operation o') \<and> list_all plain (ContainerName o')
        \<and> list_all plain (PodName o') \<and> list_all plain (Source o')
        \<and> list_all plain (Resource o')
      \<longrightarrow> fst (regexCompile Compile o' v) = None)
   \<and> (case CNamespace (snd (regexCompile Compile watch idle)) of
         Some re \<Rightarrow> MatchString re ''Kube-System'' \<and> \<not> MatchString re ''default''
       | None \<Rightarrow> False)
   \<and> (case CSource (snd (regexCompile Compile watch idle)) of
         Some re \<Rightarrow> MatchString re ''/usr/bin/curl'' \<and> \<not> MatchString re ''/USR/BIN/CURL''
       | None \<Rightarrow> False)"
proof -
  have fold: "\<forall>p re s t. noflags p \<and> Compile (''(?i)'' @ p) = Inr re
                  \<and> map toLower s = map toLower t
         \<longrightarrow> MatchString re s = MatchString re t"
    using Compile_ignores_case by blast
  have exact: "\<forall>p re. noflags p \<and> Compile p = Inr re \<longrightarrow> cased False re"
    using Compile_exact by blast
  have ns: "(case CNamespace (snd (regexCompile Compile watch idle)) of
         Some re \<Rightarrow> MatchString re ''Kube-System'' \<and> \<not> MatchString re ''default''
       | None \<Rightarrow> False)"
    by code_simp
  have src: "(case CSource (snd (regexCompile Compile watch idle)) of
         Some re \<Rightarrow> MatchString re ''/usr/bin/curl'' \<and> \<not> MatchString re ''/USR/BIN/CURL''
       | None \<Rightarrow> False)"
    by code_simp
  have order: "fst (regexCompile compile o' w) = firstError (map compile (patterns o'))
     \<and> compiled (snd (regexCompile compile o' w))
         = publish (map compile (patterns o')) (compiled w)
     \<and> patterns o'
         = [''(?i)'' @ Namespace o', ''(?i)'' @ LogType o', ''(?i)'' @ Operation o',
            ''(?i)'' @ ContainerName o', ''(?i)'' @ PodName o', Source o', Resource o']"
    by (simp add: regexCompile_result regexCompile_compiled) (simp add: patterns_def)
  have each: "fst (regexCompile Compile o' v) = None \<longrightarrow>
        (list_all plain (Namespace o') \<longrightarrow>
           contains_folded (CNamespace (snd (regexCompile Compile o' v))) (Namespace o'))
      \<and> (list_all plain (LogType o') \<longrightarrow>
           contains_folded (CLogtype (snd (regexCompile Compile o' v))) (LogType o'))
      \<and> (list_all plain (Operation o') \<longrightarrow>
           contains_folded (COperation (snd (regexCompile Compile o' v))) (Operation o'))
      \<and> (list_all plain (ContainerName o') \<longrightarrow>
           contains_folded (CContainerName (snd (regexCompile Compile o' v)))
             (ContainerName o'))
      \<and> (list_all plain (PodName o') \<longrightarrow>
           contains_folded (CPodName (snd (regexCompile Compile o' v))) (PodName o'))
      \<and> (list_all plain (Source o') \<longrightarrow>
           contains_exact (CSource (snd (regexCompile Compile o' v))) (Source o'))
      \<and> (list_all plain (Resource o') \<longrightarrow>
           contains_exact (CResource (snd (regexCompile Compile o' v))) (Resource o'))"
  proof
    assume "fst (regexCompile Compile o' v) = None"
    from regexCompile_success [OF this]
    have vars: "CNamespace (snd (regexCompile Compile o' v))
          = (case Compile (''(?i)'' @ Namespace o') of Inr re \<Rightarrow> Some re | Inl err \<Rightarrow> None)"
      "CLogtype (snd (regexCompile Compile o' v))
          = (case Compile (''(?i)'' @ LogType o') of Inr re \<Rightarrow> Some re | Inl err \<Rightarrow> None)"
      "COperation (snd (regexCompile Compile o' v))
          = (case Compile (''(?i)'' @ Operation o') of Inr re \<Rightarrow> Some re | Inl err \<Rightarrow> None)"
      "CContainerName (snd (regexCompile Compile o' v))
          = (case Compile (''(?i)'' @ ContainerName o') of Inr re \<Rightarrow> Some re | Inl err \<Rightarrow> None)"
      "CPodName (snd (regexCompile Compile o' v))
          = (case Compile (''(?i)'' @ PodName o') of Inr re \<Rightarrow> Some re | Inl err \<Rightarrow> None)"
      "CSource (snd (regexCompile Compile o' v))
          = (case Compile (Source o') of Inr re \<Rightarrow> Some re | Inl err \<Rightarrow> None)"
      "CResource (snd (regexCompile Compile o' v))
          = (case Compile (Resource o') of Inr re \<Rightarrow> Some re | Inl err \<Rightarrow> None)"
      by (simp_all add: compiled_def patterns_def del: append.simps)
    show "(list_all plain (Namespace o') \<longrightarrow>
           contains_folded (CNamespace (snd (regexCompile Compile o' v))) (Namespace o'))
      \<and> (list_all plain (LogType o') \<longrightarrow>
           contains_folded (CLogtype (snd (regexCompile Compile o' v))) (LogType o'))
      \<and> (list_all plain (Operation o') \<longrightarrow>
           contains_folded (COperation (snd (regexCompile Compile o' v))) (Operation o'))
      \<and> (list_all plain (ContainerName o') \<longrightarrow>
           contains_folded (CContainerName (snd (regexCompile Compile o' v)))
             (ContainerName o'))
      \<and> (list_all plain (PodName o') \<longrightarrow>
           contains_folded (CPodName (snd (regexCompile Compile o' v))) (PodName o'))
      \<and> (list_all plain (Source o') \<longrightarrow>
           contains_exact (CSource (snd (regexCompile Compile o' v))) (Source o'))
      \<and> (list_all plain (Resource o') \<longrightarrow>
           contains_exact (CResource (snd (regexCompile Compile o' v))) (Resource o'))"
      unfolding vars
      by (intro conjI impI) (erule contains_folded_plain contains_exact_plain)+
  qed
  have allplain: "list_all plain (Namespace o') \<and> list_all plain (LogType o')
        \<and> list_all plain (Operation o') \<and> list_all plain (ContainerName o')
        \<and> list_all plain (PodName o') \<and> list_all plain (Source o')
        \<and> list_all plain (Resource o')
      \<longrightarrow> fst (regexCompile Compile o' v) = None"
    by (simp add: regexCompile_result firstError_None_iff patterns_def Compile_plain_ok
          del: append.simps)
  from order fold exact each allplain ns src show ?thesis by blast
qed

theorem regexCompile_order_witness:
  "fst (regexCompile Compile broken idle) = Some (RegexpSyntax ''(?i)('')
   \<and> firstError (map Compile (patterns broken)) = Some (RegexpSyntax ''(?i)('')
   \<and> compiled (snd (regexCompile Compile broken idle))
       = publish (map Compile (patterns broken)) (compiled idle)
   \<and> noflags ''ku(b|p)e'' \<and> map toLower ''KuBe'' = map toLower ''kube''
   \<and> (case Compile (''(?i)'' @ ''ku(b|p)e'') of
         Inr re \<Rightarrow> MatchString re ''KuBe'' = MatchString re ''kube'' \<and> MatchString re ''kube''
       | Inl err \<Rightarrow> False)
   \<and> noflags ''/usr/bin/.*''
   \<and> (case Compile ''/usr/bin/.*'' of Inr re \<Rightarrow> cased False re | Inl err \<Rightarrow> False)
   \<and> list_all plain (Namespace watch) \<and> list_all plain (LogType watch)
   \<and> list_all plain (Operation watch) \<and> list_all plain (ContainerName watch)
   \<and> list_all plain (PodName watch) \<and> list_all plain (Source watch)
   \<and> list_all plain (Resource watch)
   \<and> fst (regexCompile Compile watch idle) = None
   \<and> ascii ''ns Kube-System''
   \<and> (case CNamespace (snd (regexCompile Compile watch idle)) of
         Some re \<Rightarrow> MatchString re ''ns Kube-System'' | None \<Rightarrow> False)
   \<and> (case CSource (snd (regexCompile Compile watch idle)) of
         Some re \<Rightarrow> MatchString re ''exec /usr/bin/curl -s'' | None \<Rightarrow> False)"
proof -
  have b: "firstError (map Compile (patterns broken)) = Some (RegexpSyntax ''(?i)('')"
    by code_simp
  have low: "map toLower ''KuBe'' = map toLower ''kube''"
    by code_simp
  have nf: "noflags ''ku(b|p)e''"
    by simp
  have "(case Compile (''(?i)'' @ ''ku(b|p)e'') of
           Inr re \<Rightarrow> MatchString re ''kube'' | Inl err \<Rightarrow> False)"
    by code_simp
  then obtain re where c: "Compile (''(?i)'' @ ''ku(b|p)e'') = Inr re"
    and m: "MatchString re ''kube''"
    by (cases "Compile (''(?i)'' @ ''ku(b|p)e'')") (simp_all del: MatchString.simps)
  note order = regexCompile_order [of Compile broken idle idle]
  from order nf c low have e: "MatchString re ''KuBe'' = MatchString re ''kube''"
    by blast
  from order b have first: "fst (regexCompile Compile broken idle) = Some (RegexpSyntax ''(?i)('')"
    and vars: "compiled (snd (regexCompile Compile broken idle))
                = publish (map Compile (patterns broken)) (compiled idle)"
    by simp_all
  from c m e have k: "(case Compile (''(?i)'' @ ''ku(b|p)e'') of
         Inr re \<Rightarrow> MatchString re ''KuBe'' = MatchString re ''kube'' \<and> MatchString re ''kube''
       | Inl err \<Rightarrow> False)"
    by (simp del: MatchString.simps)
  have nx: "noflags ''/usr/bin/.*''"
    by simp
  have "(case Compile ''/usr/bin/.*'' of Inr re \<Rightarrow> True | Inl err \<Rightarrow> False)"
    by code_simp
  then obtain rx where cx: "Compile ''/usr/bin/.*'' = Inr rx"
    by (cases "Compile ''/usr/bin/.*''") simp_all
  from order nx cx have "cased False rx"
    by blast
  with cx have x: "(case Compile ''/usr/bin/.*'' of
         Inr re \<Rightarrow> cased False re | Inl err \<Rightarrow> False)"
    by simp
  have pl: "list_all plain (Namespace watch) \<and> list_all plain (LogType watch)
   \<and> list_all plain (Operation watch) \<and> list_all plain (ContainerName watch)
   \<and> list_all plain (PodName watch) \<and> list_all plain (Source watch)
   \<and> list_all plain (Resource watch)"
    by (simp add: watch_def plain_def)
  note plainly = regexCompile_order [of Compile watch idle idle]
  from plainly pl have ok: "fst (regexCompile Compile watch idle) = None"
    by blast
  from plainly ok pl
  have "contains_folded (CNamespace (snd (regexCompile Compile watch idle))) (Namespace watch)"
    and "contains_exact (CSource (snd (regexCompile Compile watch idle))) (Source watch)"
    by blast+
  then obtain rn rs where
    rn: "CNamespace (snd (regexCompile Compile watch idle)) = Some rn"
    and mn: "\<forall>s. ascii s \<longrightarrow>
            (MatchString rn s
               \<longleftrightarrow> (\<exists>u x w. s = u @ x @ w \<and> map toLower x = map toLower ''kube-system''))"
    and rs: "CSource (snd (regexCompile Compile watch idle)) = Some rs"
    and ms: "\<forall>s. MatchString rs s \<longleftrightarrow> (\<exists>u w. s = u @ ''/usr/bin/curl'' @ w)"
    by (auto simp: contains_folded_def contains_exact_def watch_def split: option.splits
          simp del: append.simps MatchString.simps)
  have a: "ascii ''ns Kube-System''"
    by (simp add: ascii_def)
  have "map toLower ''Kube-System'' = map toLower ''kube-system''"
    by code_simp
  then have "''ns Kube-System'' = ''ns '' @ ''Kube-System'' @ []
             \<and> map toLower ''Kube-System'' = map toLower ''kube-system''"
    by simp
  with mn a have n1: "MatchString rn ''ns Kube-System''"
    by blast
  have "''exec /usr/bin/curl -s'' = ''exec '' @ ''/usr/bin/curl'' @ '' -s''"
    by simp
  with ms have s1: "MatchString rs ''exec /usr/bin/curl -s''"
    by blast
  from n1 rn have n2: "(case CNamespace (snd (regexCompile Compile watch idle)) of
         Some re \<Rightarrow> MatchString re ''ns Kube-System'' | None \<Rightarrow> False)"
    by (simp del: MatchString.simps)
  from s1 rs have s2: "(case CSource (snd (regexCompile Compile watch idle)) of
         Some re \<Rightarrow> MatchString re ''exec /usr/bin/curl -s'' | None \<Rightarrow> False)"
    by (simp del: MatchString.simps)
  from first b vars nf low k nx x pl ok a n2 s2 show ?thesis
    by blast
qed

theorem regexCompile_counterexample:
  "fst (regexCompile Compile broken idle) = Some (RegexpSyntax ''(?i)('')
   \<and> CNamespace idle = None \<and> CLogtype idle = None
   \<and> CNamespace (snd (regexCompile Compile broken idle)) \<noteq> None
   \<and> CLogtype (snd (regexCompile Compile broken idle)) = Some EmptyMatch
   \<and> (case CNamespace (snd (regexCompile Compile (watch\<lparr>Namespace := ''(?-i)kube''\<rparr>) idle)) of
         Some re \<Rightarrow> MatchString re ''kube-system'' \<and> \<not> MatchString re ''KUBE-SYSTEM''
       | None \<Rightarrow> False)
   \<and> (case CSource (snd (regexCompile Compile (watch\<lparr>Source := ''(?i)curl''\<rparr>) idle)) of
         Some re \<Rightarrow> MatchString re ''/usr/bin/curl'' \<and> MatchString re ''/USR/BIN/CURL''
       | None \<Rightarrow> False)"
  by code_simp

text \<open>
  C6. An empty filter string is compiled like any other: on success each of the seven
  variables holds what the compiler returned for its expression, which for an empty
  filter is \<open>(?i)\<close> or the empty expression. Both compile, to an expression that
  matches every string, so whenever \<open>regexCompile\<close> succeeds the variable of an empty
  filter holds an expression that matches every string; and when all seven filters are
  empty it succeeds.
\<close>

theorem empty_filter_matches_all:
  "(fst (regexCompile compile o' w) = None \<longrightarrow>
      compiled (snd (regexCompile compile o' w))
        = map (\<lambda>p. case compile p of Inr re \<Rightarrow> Some re | Inl err \<Rightarrow> None) (patterns o'))
   \<and> Compile (''(?i)'' @ '''') = Inr EmptyMatch \<and> Compile '''' = Inr EmptyMatch
   \<and> (\<forall>s. MatchString EmptyMatch s)
   \<and> (fst (regexCompile Compile o' v) = None \<longrightarrow>
        (Namespace o' = '''' \<longrightarrow>
           (\<exists>re. CNamespace (snd (regexCompile Compile o' v)) = Some re \<and> (\<forall>s. MatchString re s)))
      \<and> (LogType o' = '''' \<longrightarrow>
           (\<exists>re. CLogtype (snd (regexCompile Compile o' v)) = Some re \<and> (\<forall>s. MatchString re s)))
      \<and> (Operation o' = '''' \<longrightarrow>
           (\<exists>re. COperation (snd (regexCompile Compile o' v)) = Some re \<and> (\<forall>s. MatchString re s)))
      \<and> (ContainerName o' = '''' \<longrightarrow>
           (\<exists>re. CContainerName (snd (regexCompile Compile o' v)) = Some re
                 \<and> (\<forall>s. MatchString re s)))
      \<and> (PodName o' = '''' \<longrightarrow>
           (\<exists>re. CPodName (snd (regexCompile Compile o' v)) = Some re \<and> (\<forall>s. MatchString re s)))
      \<and> (Source o' = '''' \<longrightarrow>
           (\<exists>re. CSource (snd (regexCompile Compile o' v)) = Some re \<and> (\<forall>s. MatchString re s)))
      \<and> (Resource o' = '''' \<longrightarrow>
           (\<exists>re. CResource (snd (regexCompile Compile o' v)) = Some re \<and> (\<forall>s. MatchString re s))))
   \<and> (Namespace o' = '''' \<and> LogType o' = '''' \<and> Operation o' = '''' \<and> ContainerName o' = ''''
        \<and> PodName o' = '''' \<and> Source o' = '''' \<and> Resource o' = ''''
      \<longrightarrow> fst (regexCompile Compile o' v) = None)"
proof -
  have fields: "compiled (snd (regexCompile Compile o' v))
        = map (\<lambda>p. case Compile p of Inr re \<Rightarrow> Some re | Inl err \<Rightarrow> None) (patterns o')"
    if "fst (regexCompile Compile o' v) = None"
    using that by (rule regexCompile_success)
  have each: "(Namespace o' = '''' \<longrightarrow>
           (\<exists>re. CNamespace (snd (regexCompile Compile o' v)) = Some re \<and> (\<forall>s. MatchString re s)))
      \<and> (LogType o' = '''' \<longrightarrow>
           (\<exists>re. CLogtype (snd (regexCompile Compile o' v)) = Some re \<and> (\<forall>s. MatchString re s)))
      \<and> (Operation o' = '''' \<longrightarrow>
           (\<exists>re. COperation (snd (regexCompile Compile o' v)) = Some re \<and> (\<forall>s. MatchString re s)))
      \<and> (ContainerName o' = '''' \<longrightarrow>
           (\<exists>re. CContainerName (snd (regexCompile Compile o' v)) = Some re
                 \<and> (\<forall>s. MatchString re s)))
      \<and> (PodName o' = '''' \<longrightarrow>
           (\<exists>re. CPodName (snd (regexCompile Compile o' v)) = Some re \<and> (\<forall>s. MatchString re s)))
      \<and> (Source o' = '''' \<longrightarrow>
           (\<exists>re. CSource (snd (regexCompile Compile o' v)) = Some re \<and> (\<forall>s. MatchString re s)))
      \<and> (Resource o' = '''' \<longrightarrow>
           (\<exists>re. CResource (snd (regexCompile Compile o' v)) = Some re \<and> (\<forall>s. MatchString re s)))"
    if "fst (regexCompile Compile o' v) = None"
    using fields [OF that]
    by (auto simp: compiled_def patterns_def Compile_empty EmptyMatch_all)
  have allempty: "fst (regexCompile Compile o' v) = None"
    if "Namespace o' = '''' \<and> LogType o' = '''' \<and> Operation o' = '''' \<and> ContainerName o' = ''''
        \<and> PodName o' = '''' \<and> Source o' = '''' \<and> Resource o' = ''''"
    using that by (simp add: regexCompile_result patterns_def Compile_empty)
  from each allempty regexCompile_success [of compile o' w] show ?thesis
    by (simp add: Compile_empty EmptyMatch_all)
qed

theorem empty_filter_matches_all_witness:
  "fst (regexCompile Compile watch idle) = None
   \<and> LogType watch = '''' \<and> Resource watch = ''''
   \<and> CLogtype (snd (regexCompile Compile watch idle)) = Some EmptyMatch
   \<and> CResource (snd (regexCompile Compile watch idle)) = Some EmptyMatch
   \<and> MatchString EmptyMatch ''default''
   \<and> fst (regexCompile Compile
             (watch\<lparr>Namespace := '''', Source := ''''\<rparr>) idle) = None"
proof -
  have "fst (regexCompile Compile watch idle) = None"
    by code_simp
  moreover have "CLogtype (snd (regexCompile Compile watch idle)) = Some EmptyMatch"
    by code_simp
  moreover have "CResource (snd (regexCompile Compile watch idle)) = Some EmptyMatch"
    by code_simp
  ultimately show ?thesis
    using empty_filter_matches_all [of Compile watch idle idle]
      empty_filter_matches_all [of Compile "watch\<lparr>Namespace := '''', Source := ''''\<rparr>" idle idle]
    by (simp add: watch_def)
qed

section \<open>Before the watchers\<close>

lemma loop_go: "Go g \<notin> set (snd (getLocalPort_loop as nm p))"
proof (induction as arbitrary: p)
  case Nil
  then show ?case by simp
next
  case (Cons a as)
  show ?case
  proof (cases "net_Listen a p")
    case (Inr c)
    then show ?thesis by (cases c) auto
  next
    case (Inl taken)
    obtain n e where g: "getRandomInt (rand_Reader a) = (n, e)"
      by (cases "getRandomInt (rand_Reader a)")
    show ?thesis
    proof (cases e)
      case (Some err)
      with Inl g show ?thesis by simp
    next
      case None
      with Inl g Cons.IH [of "n + 32768"] show ?thesis
        by (simp split: prod.splits) (metis snd_conv)
    qed
  qed
qed

lemma k8sPortForward_go: "Go g \<in> set (snd (k8sPortForward c pf)) \<Longrightarrow> g = ForwardPorts"
  by (auto simp: k8sPortForward_def Let_def split: option.splits forwarding.splits)

lemma getPodName_go: "Go g \<notin> set (snd (snd (getPodName c pf)))"
  by (simp add: getPodName_def split: sum.splits list.splits)

lemma handlePortForward_go:
  "Go g \<in> set (snd (snd (handlePortForward c pf))) \<Longrightarrow> g = ForwardPorts"
proof -
  assume a: "Go g \<in> set (snd (snd (handlePortForward c pf)))"
  obtain e1 pf1 effs1 where p: "getPodName c pf = (e1, pf1, effs1)"
    by (cases "getPodName c pf")
  with getPodName_go [of g c pf] have n1: "Go g \<notin> set effs1" by simp
  obtain r2 effs2 where l: "getLocalPort c pf1 = (r2, effs2)" by (cases "getLocalPort c pf1")
  with loop_go [of g "attempts c" "PortForwardOpt.PodName pf1" "LocalPort pf1"]
  have n2: "Go g \<notin> set effs2" by (simp add: getLocalPort_def)
  show ?thesis
  proof (cases e1)
    case (Some err)
    with a p n1 show ?thesis by (simp add: handlePortForward_def)
  next
    case None
    show ?thesis
    proof (cases r2)
      case (Returns res)
      obtain lp e2 where res: "res = (lp, e2)" by (cases res)
      show ?thesis
      proof (cases e2)
        case (Some err)
        with a p l None Returns res n1 n2 show ?thesis by (simp add: handlePortForward_def)
      next
        case bound: None
        obtain r3 effs3 where k: "k8sPortForward c (pf1\<lparr>LocalPort := lp\<rparr>) = (r3, effs3)"
          by (cases "k8sPortForward c (pf1\<lparr>LocalPort := lp\<rparr>)")
        with k8sPortForward_go [of g c "pf1\<lparr>LocalPort := lp\<rparr>"]
        have n3: "Go g \<in> set effs3 \<Longrightarrow> g = ForwardPorts" by simp
        from a p l None Returns res bound k n1 n2 n3 show ?thesis
          by (auto simp: handlePortForward_def Let_def split: outcome.splits option.splits)
      qed
    next
      case (Panics m)
      with a p l None n1 n2 show ?thesis by (simp add: handlePortForward_def)
    next
      case Blocks
      with a p l None n1 n2 show ?thesis by (simp add: handlePortForward_def)
    qed
  qed
qed

lemma resolveAddress_go: "Go g \<in> set (snd (resolveAddress c o')) \<Longrightarrow> g = ForwardPorts"
proof -
  assume a: "Go g \<in> set (snd (resolveAddress c o'))"
  let ?pf = "\<lparr>LocalPort = port, RemotePort = port, MatchLabels = matchLabels,
              PortForwardOpt.Namespace = '''', PortForwardOpt.PodName = ''''\<rparr>"
  obtain r pf' effs where h: "handlePortForward c ?pf = (r, pf', effs)"
    by (cases "handlePortForward c ?pf")
  with handlePortForward_go [of g c ?pf] have "Go g \<in> set effs \<Longrightarrow> g = ForwardPorts" by simp
  with a h show ?thesis
    by (auto simp: resolveAddress_def InitiatePortForward_def
             split: if_splits option.splits outcome.splits prod.splits)
qed

lemma resolveAddress_direct:
  "GRPC o' \<noteq> '''' \<or> LookupEnv c ''KUBEARMOR_SERVICE'' \<noteq> None \<Longrightarrow>
     \<exists>gRPC. resolveAddress c o' = (Returns (Inr gRPC), [])"
  by (auto simp: resolveAddress_def)

lemma k8sPortForward_ready:
  "k8sPortForward c pf = (Returns None, effs) \<Longrightarrow> Go ForwardPorts \<in> set effs"
  by (auto simp: k8sPortForward_def Let_def split: option.splits forwarding.splits)

lemma handlePortForward_ready:
  "handlePortForward c pf = (Returns None, pf', effs) \<Longrightarrow> Go ForwardPorts \<in> set effs"
  by (auto simp: handlePortForward_def Let_def dest: k8sPortForward_ready
        split: prod.splits outcome.splits option.splits)

lemma resolveAddress_forward:
  "GRPC o' = '''' \<Longrightarrow> LookupEnv c ''KUBEARMOR_SERVICE'' = None \<Longrightarrow>
     resolveAddress c o' = (Returns (Inr g), effs0) \<Longrightarrow> Go ForwardPorts \<in> set effs0"
  by (auto simp: resolveAddress_def InitiatePortForward_def Let_def
        dest: handlePortForward_ready split: prod.splits outcome.splits option.splits)

lemma StartObserver_config:
  assumes "(MsgPath o' = ''none'' \<and> LogPath o' = ''none'')
           \<or> (LogFilter o' \<noteq> ''all'' \<and> LogFilter o' \<noteq> ''policy'' \<and> LogFilter o' \<noteq> ''system'')"
    and "resolveAddress c o' = (Returns (Inr gRPC), effs0)"
  shows "StartObserver compile c o' w = (Returns None, w, effs0 @ [PrintDefaults])"
  using assms by (auto simp: StartObserver_def)

lemma StartObserver_unresolved:
  assumes "\<forall>gRPC. fst (resolveAddress c o') \<noteq> Returns (Inr gRPC)"
  shows "snd (snd (StartObserver compile c o' w)) = snd (resolveAddress c o')"
    and "fst (StartObserver compile c o' w)
         = (case fst (resolveAddress c o') of
              Returns (Inl err) \<Rightarrow> Returns (Some err)
            | Returns (Inr a) \<Rightarrow> Returns None
            | Panics m \<Rightarrow> Panics m
            | Blocks \<Rightarrow> Blocks)"
  using assms
  by (auto simp: StartObserver_def split: prod.splits outcome.splits sum.splits)

lemma StartObserver_invalid_filter:
  assumes "firstError (map compile (patterns o')) = Some err"
    and "resolveAddress c o' = (Returns (Inr gRPC), effs0)"
  shows "\<exists>r w' effs. StartObserver compile c o' w = (r, w', effs0 @ effs)
           \<and> Go WatchAlerts \<notin> set effs \<and> Go WatchLogs \<notin> set effs
           \<and> (\<not> (MsgPath o' = ''none'' \<and> LogPath o' = ''none'')
              \<and> (LogFilter o' = ''all'' \<or> LogFilter o' = ''policy'' \<or> LogFilter o' = ''system'')
              \<and> NewClient c gRPC (MsgPath o') (LogPath o') (LogFilter o') (Limit o') \<noteq> None
              \<and> DoHealthCheck c
              \<longrightarrow> r = Returns (Some err))"
proof -
  have rc: "\<And>w1. fst (regexCompile compile o' w1) = Some err"
    using assms(1) by (simp add: regexCompile_result)
  show ?thesis
  proof (cases "(MsgPath o' = ''none'' \<and> LogPath o' = ''none'')
           \<or> (LogFilter o' \<noteq> ''all'' \<and> LogFilter o' \<noteq> ''policy'' \<and> LogFilter o' \<noteq> ''system'')")
    case True
    with assms(2) show ?thesis by (auto simp: StartObserver_def)
  next
    case False
    show ?thesis
    proof (cases "NewClient c gRPC (MsgPath o') (LogPath o') (LogFilter o') (Limit o')")
      case None
      with False assms(2) show ?thesis by (auto simp: StartObserver_def)
    next
      case (Some fd)
      obtain e2 w2 where r2: "regexCompile compile o' (w\<lparr>logClient := Some fd\<rparr>) = (e2, w2)"
        by (cases "regexCompile compile o' (w\<lparr>logClient := Some fd\<rparr>)")
      with rc [of "w\<lparr>logClient := Some fd\<rparr>"] have "e2 = Some err" by simp
      with False Some assms(2) r2 show ?thesis
        by (auto simp: StartObserver_def Let_def)
    qed
  qed
qed

text \<open>
  C1, as amended. When one of the seven expressions does not compile, \<open>StartObserver\<close>
  starts neither the watcher of alerts nor the watcher of logs, whatever else happens;
  and when it gets as far as compiling the filters (the address is resolved, the two
  destinations are not both \<open>none\<close>, the filter mode is one of the three, the client is
  created and the service is alive) it returns the first compilation error.
\<close>

theorem invalid_filter_no_filtered_watcher:
  assumes "\<exists>p \<in> set (patterns o'). isl (compile p)"
  shows "Go WatchAlerts \<notin> set (snd (snd (StartObserver compile c o' w)))
       \<and> Go WatchLogs \<notin> set (snd (snd (StartObserver compile c o' w)))
       \<and> (\<forall>gRPC effs0.
            resolveAddress c o' = (Returns (Inr gRPC), effs0)
            \<and> \<not> (MsgPath o' = ''none'' \<and> LogPath o' = ''none'')
            \<and> (LogFilter o' = ''all'' \<or> LogFilter o' = ''policy'' \<or> LogFilter o' = ''system'')
            \<and> NewClient c gRPC (MsgPath o') (LogPath o') (LogFilter o') (Limit o') \<noteq> None
            \<and> DoHealthCheck c
          \<longrightarrow> (\<exists>err. firstError (map compile (patterns o')) = Some err
                 \<and> fst (StartObserver compile c o' w) = Returns (Some err)))"
proof -
  from assms obtain err where err: "firstError (map compile (patterns o')) = Some err"
    using firstError_Some_iff [of "map compile (patterns o')"] by auto
  have started: "Go g \<in> set (snd (snd (StartObserver compile c o' w)))
                 \<Longrightarrow> g \<noteq> WatchAlerts \<and> g \<noteq> WatchLogs" for g
  proof (cases "\<exists>gRPC. fst (resolveAddress c o') = Returns (Inr gRPC)")
    case True
    assume g: "Go g \<in> set (snd (snd (StartObserver compile c o' w)))"
    from True obtain gRPC effs0 where r: "resolveAddress c o' = (Returns (Inr gRPC), effs0)"
      by (cases "resolveAddress c o'") auto
    from StartObserver_invalid_filter [OF err r, of w] obtain r1 w1 effs
      where s: "StartObserver compile c o' w = (r1, w1, effs0 @ effs)"
        and n: "Go WatchAlerts \<notin> set effs" "Go WatchLogs \<notin> set effs"
      by blast
    from g s have "Go g \<in> set effs0 \<or> Go g \<in> set effs" by simp
    then show ?thesis
    proof
      assume "Go g \<in> set effs0"
      with r resolveAddress_go [of g c o'] show ?thesis by simp
    next
      assume "Go g \<in> set effs"
      with n show ?thesis by auto
    qed
  next
    case False
    assume g: "Go g \<in> set (snd (snd (StartObserver compile c o' w)))"
    from False have "\<forall>gRPC. fst (resolveAddress c o') \<noteq> Returns (Inr gRPC)" by simp
    from StartObserver_unresolved(1) [OF this, of compile w] g resolveAddress_go [of g c o']
    show ?thesis by simp
  qed
  have reached: "\<exists>err. firstError (map compile (patterns o')) = Some err
                 \<and> fst (StartObserver compile c o' w) = Returns (Some err)"
    if "resolveAddress c o' = (Returns (Inr gRPC), effs0)
        \<and> \<not> (MsgPath o' = ''none'' \<and> LogPath o' = ''none'')
        \<and> (LogFilter o' = ''all'' \<or> LogFilter o' = ''policy'' \<or> LogFilter o' = ''system'')
        \<and> NewClient c gRPC (MsgPath o') (LogPath o') (LogFilter o') (Limit o') \<noteq> None
        \<and> DoHealthCheck c"
    for gRPC effs0
  proof -
    from that have r: "resolveAddress c o' = (Returns (Inr gRPC), effs0)" by simp
    from StartObserver_invalid_filter [OF err r, of w] that err show ?thesis by auto
  qed
  from started [of WatchAlerts] started [of WatchLogs] reached show ?thesis by blast
qed

theorem invalid_filter_no_filtered_watcher_witness:
  "isl (Compile (''(?i)'' @ Operation broken))
   \<and> Go WatchAlerts \<notin> set (snd (snd (StartObserver Compile cluster broken idle)))
   \<and> Go WatchLogs \<notin> set (snd (snd (StartObserver Compile cluster broken idle)))
   \<and> resolveAddress cluster broken = (Returns (Inr ''localhost:32767''), [])
   \<and> MsgPath broken \<noteq> ''none'' \<and> LogFilter broken = ''all''
   \<and> NewClient cluster ''localhost:32767'' (MsgPath broken) (LogPath broken) (LogFilter broken)
        (Limit broken) \<noteq> None
   \<and> DoHealthCheck cluster
   \<and> firstError (map Compile (patterns broken)) = Some (RegexpSyntax ''(?i)('')
   \<and> fst (StartObserver Compile cluster broken idle) = Returns (Some (RegexpSyntax ''(?i)(''))"
proof -
  have bad: "isl (Compile (''(?i)'' @ Operation broken))"
    by code_simp
  then have h: "\<exists>p \<in> set (patterns broken). isl (Compile p)"
    by (simp add: patterns_def)
  have r: "resolveAddress cluster broken = (Returns (Inr ''localhost:32767''), [])"
    by (simp add: resolveAddress_def broken_def watch_def)
  have f: "firstError (map Compile (patterns broken)) = Some (RegexpSyntax ''(?i)('')"
    by code_simp
  from invalid_filter_no_filtered_watcher [OF h, of cluster idle] bad r f show ?thesis
    by (simp add: broken_def watch_def cluster_def)
qed

theorem invalid_filter_counterexample:
  "isl (Compile (''(?i)'' @ Operation broken))
   \<and> fst (StartObserver Compile cluster broken idle) = Returns (Some (RegexpSyntax ''(?i)(''))
   \<and> Go (WatchMessages ''stdout'' False)
       \<in> set (snd (snd (StartObserver Compile cluster broken idle)))
   \<and> isl (Compile (''(?i)'' @ Operation (broken\<lparr>LogFilter := ''audit''\<rparr>)))
   \<and> fst (StartObserver Compile cluster (broken\<lparr>LogFilter := ''audit''\<rparr>) idle) = Returns None"
  by code_simp

text \<open>
  C3, as amended. When both destinations are \<open>none\<close>, or the filter mode is none of
  \<open>all\<close>, \<open>policy\<close>, \<open>system\<close>, \<open>StartObserver\<close> does not return an error of its own:
  once the address is resolved it prints the defaults of the flags and returns \<open>nil\<close>,
  with the package state as it was, no client and no watcher. With an address given by
  the options or by the environment that is all it does. The only goroutine it can have
  started is the one of the port forward, which it has started whenever it had to find
  the address itself, and the only error it can return is the one of the port forward.
\<close>

theorem invalid_configuration_returns_nil:
  assumes "(MsgPath o' = ''none'' \<and> LogPath o' = ''none'')
           \<or> (LogFilter o' \<noteq> ''all'' \<and> LogFilter o' \<noteq> ''policy'' \<and> LogFilter o' \<noteq> ''system'')"
  shows "(\<forall>gRPC effs0. resolveAddress c o' = (Returns (Inr gRPC), effs0) \<longrightarrow>
            StartObserver compile c o' w = (Returns None, w, effs0 @ [PrintDefaults]))
       \<and> (GRPC o' \<noteq> '''' \<or> LookupEnv c ''KUBEARMOR_SERVICE'' \<noteq> None \<longrightarrow>
            StartObserver compile c o' w = (Returns None, w, [PrintDefaults]))
       \<and> (\<forall>g. Go g \<in> set (snd (snd (StartObserver compile c o' w))) \<longrightarrow> g = ForwardPorts)
       \<and> (\<forall>err. fst (StartObserver compile c o' w) = Returns (Some err) \<longrightarrow>
            fst (resolveAddress c o') = Returns (Inl err))
       \<and> (GRPC o' = '''' \<and> LookupEnv c ''KUBEARMOR_SERVICE'' = None
            \<and> fst (StartObserver compile c o' w) = Returns None \<longrightarrow>
            Go ForwardPorts \<in> set (snd (snd (StartObserver compile c o' w))))"
proof -
  have resolved: "StartObserver compile c o' w = (Returns None, w, effs0 @ [PrintDefaults])"
    if "resolveAddress c o' = (Returns (Inr gRPC), effs0)" for gRPC effs0
    using StartObserver_config [OF assms that] .
  have direct: "StartObserver compile c o' w = (Returns None, w, [PrintDefaults])"
    if "GRPC o' \<noteq> '''' \<or> LookupEnv c ''KUBEARMOR_SERVICE'' \<noteq> None"
    using resolveAddress_direct [OF that] resolved by auto
  have started: "g = ForwardPorts"
    if g: "Go g \<in> set (snd (snd (StartObserver compile c o' w)))" for g
  proof (cases "\<exists>gRPC. fst (resolveAddress c o') = Returns (Inr gRPC)")
    case True
    then obtain gRPC effs0 where r: "resolveAddress c o' = (Returns (Inr gRPC), effs0)"
      by (cases "resolveAddress c o'") auto
    from resolved [OF r] g have "Go g \<in> set effs0" by simp
    with r resolveAddress_go [of g c o'] show ?thesis by simp
  next
    case False
    then have "\<forall>gRPC. fst (resolveAddress c o') \<noteq> Returns (Inr gRPC)" by simp
    from StartObserver_unresolved(1) [OF this, of compile w] g resolveAddress_go [of g c o']
    show ?thesis by simp
  qed
  have errors: "fst (resolveAddress c o') = Returns (Inl err)"
    if e: "fst (StartObserver compile c o' w) = Returns (Some err)" for err
  proof (cases "\<exists>gRPC. fst (resolveAddress c o') = Returns (Inr gRPC)")
    case True
    then obtain gRPC effs0 where r: "resolveAddress c o' = (Returns (Inr gRPC), effs0)"
      by (cases "resolveAddress c o'") auto
    from resolved [OF r] e show ?thesis by simp
  next
    case False
    then have "\<forall>gRPC. fst (resolveAddress c o') \<noteq> Returns (Inr gRPC)" by simp
    from StartObserver_unresolved(2) [OF this, of compile w] e show ?thesis
      by (auto split: outcome.splits sum.splits)
  qed
  have forwarded: "Go ForwardPorts \<in> set (snd (snd (StartObserver compile c o' w)))"
    if d: "GRPC o' = '''' \<and> LookupEnv c ''KUBEARMOR_SERVICE'' = None
            \<and> fst (StartObserver compile c o' w) = Returns None"
  proof (cases "\<exists>gRPC. fst (resolveAddress c o') = Returns (Inr gRPC)")
    case True
    then obtain gRPC effs0 where r: "resolveAddress c o' = (Returns (Inr gRPC), effs0)"
      by (cases "resolveAddress c o'") auto
    from d r have "Go ForwardPorts \<in> set effs0"
      using resolveAddress_forward [of o' c gRPC effs0] by simp
    with resolved [OF r] show ?thesis by simp
  next
    case False
    then have "\<forall>gRPC. fst (resolveAddress c o') \<noteq> Returns (Inr gRPC)" by simp
    from StartObserver_unresolved(2) [OF this, of compile w] d False show ?thesis
      by (auto split: outcome.splits sum.splits)
  qed
  from resolved direct started errors forwarded show ?thesis by blast
qed

theorem invalid_configuration_returns_nil_witness:
  "MsgPath (watch\<lparr>LogPath := ''none''\<rparr>) = ''none'' \<and> LogPath (watch\<lparr>LogPath := ''none''\<rparr>) = ''none''
   \<and> GRPC (watch\<lparr>LogPath := ''none''\<rparr>) \<noteq> ''''
   \<and> StartObserver Compile cluster (watch\<lparr>LogPath := ''none''\<rparr>) idle
       = (Returns None, idle, [PrintDefaults])
   \<and> LogFilter discover = ''audit''
   \<and> GRPC discover = '''' \<and> LookupEnv cluster ''KUBEARMOR_SERVICE'' = None
   \<and> fst (resolveAddress cluster discover) = Returns (Inr ''localhost:32775'')
   \<and> StartObserver Compile cluster discover idle
       = (Returns None, idle, snd (resolveAddress cluster discover) @ [PrintDefaults])
   \<and> Go ForwardPorts \<in> set (snd (snd (StartObserver Compile cluster discover idle)))"
proof -
  have a: "(MsgPath (watch\<lparr>LogPath := ''none''\<rparr>) = ''none''
            \<and> LogPath (watch\<lparr>LogPath := ''none''\<rparr>) = ''none'')
           \<or> (LogFilter (watch\<lparr>LogPath := ''none''\<rparr>) \<noteq> ''all''
              \<and> LogFilter (watch\<lparr>LogPath := ''none''\<rparr>) \<noteq> ''policy''
              \<and> LogFilter (watch\<lparr>LogPath := ''none''\<rparr>) \<noteq> ''system'')"
    by (simp add: watch_def)
  have b: "(MsgPath discover = ''none'' \<and> LogPath discover = ''none'')
           \<or> (LogFilter discover \<noteq> ''all'' \<and> LogFilter discover \<noteq> ''policy''
              \<and> LogFilter discover \<noteq> ''system'')"
    by (simp add: discover_def watch_def)
  have r: "\<exists>effs0. resolveAddress cluster discover = (Returns (Inr ''localhost:32775''), effs0)
                  \<and> Go ForwardPorts \<in> set effs0"
    by (simp add: resolveAddress_def InitiatePortForward_def handlePortForward_def
          getPodName_def getLocalPort_def k8sPortForward_def cluster_def busy_def free_def
          getRandomInt_def rand_Int_def relay_def port_def discover_def watch_def
          FormatInt_def digits10.simps)
  have d: "GRPC discover = ''''" "LookupEnv cluster ''KUBEARMOR_SERVICE'' = None"
    by (simp_all add: discover_def watch_def cluster_def)
  from invalid_configuration_returns_nil [OF a, of cluster Compile idle]
    invalid_configuration_returns_nil [OF b, of cluster Compile idle] r d
  show ?thesis
    by (auto simp: watch_def discover_def)
qed

theorem invalid_configuration_counterexample:
  "MsgPath (watch\<lparr>LogPath := ''none''\<rparr>) = ''none'' \<and> LogPath (watch\<lparr>LogPath := ''none''\<rparr>) = ''none''
   \<and> fst (StartObserver Compile cluster (watch\<lparr>LogPath := ''none''\<rparr>) idle) = Returns None
   \<and> LogFilter (watch\<lparr>LogFilter := ''audit''\<rparr>) = ''audit''
   \<and> fst (StartObserver Compile cluster (watch\<lparr>LogFilter := ''audit''\<rparr>) idle) = Returns None"
  by code_simp

section \<open>Waiting for the end\<close>

lemma recv_ready:
  "Limitchan w = Some (Suc n) \<Longrightarrow> recvLimitchan evs w = (Some evs, w\<lparr>Limitchan := Some n\<rparr>)"
  by (cases evs) simp_all

lemma recv_empty:
  "Limitchan w = Some 0 \<Longrightarrow>
     fst (recvLimitchan evs w) = afterReports (Suc 0) evs
     \<and> (fst (recvLimitchan evs w) \<noteq> None \<longrightarrow> Limitchan (snd (recvLimitchan evs w)) = Some 0)"
proof (induction evs arbitrary: w)
  case Nil
  then show ?case by simp
next
  case (Cons e es)
  show ?case
  proof (cases "e = QuotaReached")
    case True
    with Cons.prems have "Limitchan (occur e w) = Some (Suc 0)" by simp
    from recv_ready [OF this, of es] Cons.prems True show ?thesis by simp
  next
    case False
    with Cons.prems have "Limitchan (occur e w) = Some 0"
      by (cases e) (simp_all add: StopObserver_def)
    from Cons.IH [OF this] Cons.prems False show ?thesis by simp
  qed
qed

lemma afterReports_Suc:
  "afterReports (Suc n) evs
     = (case afterReports (Suc 0) evs of None \<Rightarrow> None | Some rest \<Rightarrow> afterReports n rest)"
  by (induction evs) simp_all

lemma await_bounded:
  assumes "Limit o' \<noteq> 0" and "Limitchan w = Some 0"
  shows "fst (awaitTermination o' evs w)
         = afterReports (if LogFilter o' = ''all'' then 2 else 1) evs"
proof (cases "LogFilter o' = ''all''")
  case True
  obtain r1 w1 where r: "recvLimitchan evs w = (r1, w1)" by (cases "recvLimitchan evs w")
  with recv_empty [OF assms(2), of evs]
  have a: "afterReports (Suc 0) evs = r1" and b: "r1 \<noteq> None \<longrightarrow> Limitchan w1 = Some 0" by simp_all
  show ?thesis
  proof (cases r1)
    case None
    with a r assms(1) True show ?thesis
      by (simp add: awaitTermination_def afterReports_Suc [of "Suc 0"] numeral_2_eq_2)
  next
    case (Some rest)
    with b have "Limitchan w1 = Some 0" by simp
    from recv_empty [OF this, of rest] a r Some assms(1) True show ?thesis
      by (simp add: awaitTermination_def afterReports_Suc [of "Suc 0"] numeral_2_eq_2)
  qed
next
  case False
  with assms recv_empty [OF assms(2), of evs] show ?thesis
    by (simp add: awaitTermination_def)
qed

lemma afterReports_count:
  "afterReports n evs \<noteq> None \<longleftrightarrow> n \<le> count_list evs QuotaReached"
  by (induction n evs rule: afterReports.induct) auto


lemma recv_Limitchan_only:
  "Limitchan w = Limitchan w' \<Longrightarrow>
     fst (recvLimitchan evs w) = fst (recvLimitchan evs w')
     \<and> Limitchan (snd (recvLimitchan evs w)) = Limitchan (snd (recvLimitchan evs w'))"
proof (induction evs arbitrary: w w')
  case Nil
  then show ?case by (simp split: option.splits nat.splits)
next
  case (Cons e es)
  from Cons.prems have "Limitchan (occur e w) = Limitchan (occur e w')"
    by (cases e) (simp_all add: StopObserver_def)
  from Cons.IH [OF this] Cons.prems show ?case
    by (simp split: option.splits nat.splits)
qed

lemma await_bounded_Limitchan_only:
  assumes "Limit o' \<noteq> 0" and "Limitchan w = Limitchan w'"
  shows "fst (awaitTermination o' evs w) = fst (awaitTermination o' evs w')"
proof -
  obtain r1 w1 where r: "recvLimitchan evs w = (r1, w1)" by (cases "recvLimitchan evs w")
  obtain r1' w1' where r0: "recvLimitchan evs w' = (r1', w1')" by (cases "recvLimitchan evs w'")
  from recv_Limitchan_only [OF assms(2), of evs] r r0
  have e: "Limitchan w1 = Limitchan w1'" and "r1' = r1" by simp_all
  with r0 have r': "recvLimitchan evs w' = (r1, w1')" by simp
  show ?thesis
  proof (cases r1)
    case None
    with r r' assms(1) show ?thesis by (simp add: awaitTermination_def)
  next
    case (Some rest)
    with r r' assms(1) recv_Limitchan_only [OF e, of rest] show ?thesis
      by (simp add: awaitTermination_def)
  qed
qed

lemma afterReports_only_stop:
  "\<forall>e \<in> set evs. e = StopRequest \<Longrightarrow> afterReports (Suc n) evs = None"
  by (induction evs) simp_all

lemma count_list_filter: "P x \<Longrightarrow> count_list (filter P xs) x = count_list xs x"
  by (induction xs) simp_all

lemma armed_Nil_select:
  "armed (selectSigChan w) pre \<longleftrightarrow> armed w pre"
  by (auto simp: armed_def selectSigChan_def split: option.splits bool.splits)

lemma armed_empty: "armed w [] \<longleftrightarrow> unblockSignal w \<or> sigChan w = Some True"
  by (simp add: armed_def)

lemma armed_Cons:
  "e \<noteq> Tick \<Longrightarrow> armed (occur e w) pre \<longleftrightarrow> armed w (e # pre)"
  by (cases e) (auto simp: armed_def StopObserver_def)

lemma unblock_select: "unblockSignal (selectSigChan w) \<longleftrightarrow> unblockSignal w \<or> sigChan w = Some True"
  by (auto simp: selectSigChan_def split: option.splits bool.splits)

lemma poll_iff:
  "fst (pollSignals asleep evs w) \<noteq> None \<longleftrightarrow>
     (\<not> asleep \<and> unblockSignal w)
     \<or> (\<exists>pre post. evs = pre @ Tick # post \<and> armed w pre)"
proof (induction evs arbitrary: asleep w)
  case Nil
  then show ?case by simp
next
  case (Cons e es)
  show ?case
  proof (cases "\<not> asleep \<and> unblockSignal w")
    case True
    then show ?thesis by simp
  next
    case out: False
    show ?thesis
    proof (cases "e = Tick")
      case True
      have "fst (pollSignals asleep (e # es) w) \<noteq> None
            \<longleftrightarrow> fst (pollSignals False es (selectSigChan w)) \<noteq> None"
        using out True by auto
      also have "\<dots> \<longleftrightarrow> unblockSignal (selectSigChan w)
                  \<or> (\<exists>pre post. es = pre @ Tick # post \<and> armed (selectSigChan w) pre)"
        using Cons.IH [of False "selectSigChan w"] by simp
      also have "\<dots> \<longleftrightarrow> armed w [] \<or> (\<exists>pre post. es = pre @ Tick # post \<and> armed w pre)"
        using armed_empty [of w] by (simp add: armed_Nil_select unblock_select)
      also have "\<dots> \<longleftrightarrow> (\<exists>pre post. e # es = pre @ Tick # post \<and> armed w pre)"
      proof
        assume "armed w [] \<or> (\<exists>pre post. es = pre @ Tick # post \<and> armed w pre)"
        then show "\<exists>pre post. e # es = pre @ Tick # post \<and> armed w pre"
        proof
          assume "armed w []"
          with True have "e # es = [] @ Tick # es \<and> armed w []" by simp
          then show ?thesis by blast
        next
          assume "\<exists>pre post. es = pre @ Tick # post \<and> armed w pre"
          then obtain pre post where "es = pre @ Tick # post" "armed w pre" by blast
          then have "e # es = (e # pre) @ Tick # post \<and> armed w (e # pre)"
            by (auto simp: armed_def)
          then show ?thesis by blast
        qed
      next
        assume "\<exists>pre post. e # es = pre @ Tick # post \<and> armed w pre"
        then obtain pre post where p: "e # es = pre @ Tick # post" "armed w pre" by blast
        show "armed w [] \<or> (\<exists>pre post. es = pre @ Tick # post \<and> armed w pre)"
        proof (cases pre)
          case Nil
          with p show ?thesis by simp
        next
          case (Cons a pre')
          with p True have "es = pre' @ Tick # post" "armed w pre'"
            by (auto simp: armed_def)
          then show ?thesis by blast
        qed
      qed
      finally show ?thesis using out by blast
    next
      case False
      have "fst (pollSignals asleep (e # es) w) \<noteq> None
            \<longleftrightarrow> fst (pollSignals True es (occur e w)) \<noteq> None"
        using out False by auto
      also have "\<dots> \<longleftrightarrow> (\<exists>pre post. es = pre @ Tick # post \<and> armed (occur e w) pre)"
        using Cons.IH [of True "occur e w"] by simp
      also have "\<dots> \<longleftrightarrow> (\<exists>pre post. es = pre @ Tick # post \<and> armed w (e # pre))"
        using False by (simp add: armed_Cons)
      also have "\<dots> \<longleftrightarrow> (\<exists>pre post. e # es = pre @ Tick # post \<and> armed w pre)"
      proof
        assume "\<exists>pre post. es = pre @ Tick # post \<and> armed w (e # pre)"
        then obtain pre post where "es = pre @ Tick # post" "armed w (e # pre)" by blast
        then have "e # es = (e # pre) @ Tick # post \<and> armed w (e # pre)" by simp
        then show "\<exists>pre post. e # es = pre @ Tick # post \<and> armed w pre" by blast
      next
        assume "\<exists>pre post. e # es = pre @ Tick # post \<and> armed w pre"
        then obtain pre post where p: "e # es = pre @ Tick # post" "armed w pre" by blast
        with False obtain pre' where "pre = e # pre'" by (cases pre) auto
        with p have "es = pre' @ Tick # post \<and> armed w (e # pre')" by simp
        then show "\<exists>pre post. es = pre @ Tick # post \<and> armed w (e # pre)" by blast
      qed
      finally show ?thesis using out by blast
    qed
  qed
qed

lemma await_unbounded:
  assumes "Limit o' = 0"
  shows "fst (awaitTermination o' evs w) \<noteq> None \<longleftrightarrow>
           (\<exists>pre post. evs = pre @ Tick # post
              \<and> (Signal \<in> set pre \<or> StopRequest \<in> set pre))"
  using assms poll_iff [of False evs "w\<lparr>unblockSignal := False, sigChan := Some False\<rparr>"]
  by (auto simp: awaitTermination_def armed_def)

lemma launched_Limitchan: "Limitchan (fst (launchWatchers o' w)) = Some 0"
  by (simp add: launchWatchers_def)










text \<open>
  C9. \<open>StopObserver\<close> sets the flag \<open>unblockSignal\<close> and nothing else. With a quota the
  wait of the controller does not read the flag: it ends, or not, as if the call had
  not been made, whether the call came before the wait or during it, and stop requests
  alone never end it. Without a quota a stop request followed by a wake-up of the
  polling loop does end the wait.
\<close>

theorem StopObserver_bounded_wait:
  "StopObserver w = w\<lparr>unblockSignal := True\<rparr>
   \<and> (Limit o' \<noteq> 0 \<longrightarrow>
        fst (awaitTermination o' evs (StopObserver w)) = fst (awaitTermination o' evs w)
      \<and> ((\<forall>e \<in> set evs. e = StopRequest) \<longrightarrow>
            fst (awaitTermination o' evs (fst (launchWatchers o' w))) = None)
      \<and> (fst (awaitTermination o' (filter (\<lambda>e. e \<noteq> StopRequest) evs)
                (fst (launchWatchers o' w))) = None
          \<longleftrightarrow> fst (awaitTermination o' evs (fst (launchWatchers o' w))) = None))
   \<and> (Limit o' = 0 \<longrightarrow> fst (awaitTermination o' (StopRequest # Tick # evs) w) \<noteq> None)"
proof -
  let ?w = "fst (launchWatchers o' w)"
  let ?n = "if LogFilter o' = ''all'' then 2 else (1::nat)"
  have flag: "fst (awaitTermination o' evs (StopObserver w)) = fst (awaitTermination o' evs w)"
    if "Limit o' \<noteq> 0"
    using await_bounded_Limitchan_only [OF that, of "StopObserver w" w evs]
    by (simp add: StopObserver_def)
  have alone: "fst (awaitTermination o' evs ?w) = None"
    if "Limit o' \<noteq> 0" and "\<forall>e \<in> set evs. e = StopRequest"
  proof -
    have "afterReports ?n evs = None"
      using afterReports_only_stop [OF that(2), of 0] afterReports_only_stop [OF that(2), of 1]
      by (simp add: numeral_2_eq_2)
    with await_bounded [where w = "fst (launchWatchers o' w)" and evs = evs,
        OF that(1) launched_Limitchan]
    show ?thesis by simp
  qed
  have removed: "fst (awaitTermination o' (filter (\<lambda>e. e \<noteq> StopRequest) evs) ?w) = None
          \<longleftrightarrow> fst (awaitTermination o' evs ?w) = None"
    if "Limit o' \<noteq> 0"
  proof -
    have "count_list (filter (\<lambda>e. e \<noteq> StopRequest) evs) QuotaReached
          = count_list evs QuotaReached"
      by (rule count_list_filter) simp
    with afterReports_count [of ?n evs]
      afterReports_count [of ?n "filter (\<lambda>e. e \<noteq> StopRequest) evs"]
    have "afterReports ?n (filter (\<lambda>e. e \<noteq> StopRequest) evs) = None
          \<longleftrightarrow> afterReports ?n evs = None"
      by auto
    with await_bounded [where w = "fst (launchWatchers o' w)" and evs = evs,
        OF that launched_Limitchan]
      await_bounded [where w = "fst (launchWatchers o' w)"
        and evs = "filter (\<lambda>e. e \<noteq> StopRequest) evs", OF that launched_Limitchan]
    show ?thesis by simp
  qed
  have polled: "fst (awaitTermination o' (StopRequest # Tick # evs) w) \<noteq> None"
    if "Limit o' = 0"
  proof -
    have "StopRequest # Tick # evs = [StopRequest] @ Tick # evs
          \<and> (Signal \<in> set [StopRequest] \<or> StopRequest \<in> set [StopRequest])"
      by simp
    then show ?thesis
      unfolding await_unbounded [OF that] by blast
  qed
  from flag alone removed polled show ?thesis by (simp add: StopObserver_def)
qed

theorem StopObserver_bounded_wait_witness:
  "Limit watch \<noteq> 0
   \<and> fst (awaitTermination watch (events cluster) (StopObserver idle))
       = fst (awaitTermination watch (events cluster) idle)
   \<and> fst (awaitTermination watch [StopRequest, StopRequest, StopRequest]
            (fst (launchWatchers watch idle))) = None
   \<and> filter (\<lambda>e. e \<noteq> StopRequest) (events cluster) = [QuotaReached, Tick, QuotaReached, Signal]
   \<and> fst (awaitTermination watch [QuotaReached, Tick, QuotaReached, Signal]
            (fst (launchWatchers watch idle))) \<noteq> None
   \<and> fst (awaitTermination watch (events cluster) (fst (launchWatchers watch idle))) \<noteq> None
   \<and> Limit (watch\<lparr>Limit := 0\<rparr>) = 0
   \<and> fst (awaitTermination (watch\<lparr>Limit := 0\<rparr>) (StopRequest # Tick # events cluster) idle)
       \<noteq> None"
proof -
  have l: "Limit watch \<noteq> 0" "Limit (watch\<lparr>Limit := 0\<rparr>) = 0"
    by (simp_all add: watch_def)
  have e: "filter (\<lambda>e. e \<noteq> StopRequest) (events cluster)
           = [QuotaReached, Tick, QuotaReached, Signal]"
    by (simp add: cluster_def)
  have u: "fst (awaitTermination watch (events cluster) (fst (launchWatchers watch idle)))
           \<noteq> None"
    by (simp add: awaitTermination_def launchWatchers_def watch_def cluster_def idle_def
          StopObserver_def)
  from StopObserver_bounded_wait [of idle watch "events cluster"]
    StopObserver_bounded_wait [of idle watch "[StopRequest, StopRequest, StopRequest]"]
    StopObserver_bounded_wait [of idle "watch\<lparr>Limit := 0\<rparr>" "events cluster"]
    l e u
  show ?thesis by simp
qed

end
